theory Spec2Isabelle
  imports Complex_Main
begin

section \<open>The semantic model supplied by the TypeScript compiler\<close>

text \<open>
  The analyzer reads the program through the compiler API. The parts of that API it
  touches are modelled as data, with the optionality the API declares:
  \<^item> a syntax kind, for declarations (\<open>ts.isMethodDeclaration\<close> and the three tests of
    \<open>IS_ATTR_DECL\<close> compare the kind) and for modifiers (\<open>PRIVATE_MODIFIERS\<close>);
  \<^item> the declaration node of a class: its identity (nodes are compared with \<open>===\<close>), the
    name of its source file and the zero-based line and character of its start;
  \<^item> the first declaration of a property: kind, \<open>name.getText()\<close>, the optional
    \<open>modifiers\<close> array (the kinds of its entries) and the identity of \<open>parent\<close>;
  \<^item> a property symbol: its optional \<open>declarations\<close> array;
  \<^item> a type: \<open>typeChecker.typeToString\<close> of it, the optional \<open>declarations\<close> array of
    its symbol (every type has a symbol, as the API declares), the optional result of
    \<open>getBaseTypes()\<close> and \<open>getProperties()\<close>.
  Base types are types again, so a type carries its whole chain of ancestors; the chain is
  finite, as the checker gives a class that extends itself no base type. Two occurrences
  of one type object are equal values here, and \<open>getClassMetrics\<close> tells classes apart by
  name and position only.
\<close>

datatype syntax_kind =
    MethodDeclaration
  | PropertyDeclaration
  | Parameter
  | GetAccessor
  | PrivateKeyword
  | PrivateIdentifier
  | OtherKind nat

record node =
  nodeId :: nat
  fileName :: string
  line :: nat
  character :: nat

record prop_decl =
  kind :: syntax_kind
  nameText :: string
  modifiers :: "syntax_kind list option"
  parent :: nat

type_synonym ts_symbol = "prop_decl list option"

datatype ts_type =
  TsType (typeToString: string)
         (symbolDeclarations: "node list option")
         (getBaseTypes: "ts_type list option")
         (getProperties: "ts_symbol list")

text \<open>\<open>declarations?.[0]\<close>: undefined for a missing array and for an empty one.\<close>

fun first0 :: "'a list option \<Rightarrow> 'a option" where
  "first0 None = None"
| "first0 (Some []) = None"
| "first0 (Some (d # ds)) = Some d"

text \<open>A syntax tree node: the type at its location when it is class-like, and its children.\<close>

datatype ast_node =
  AstNode (classLikeType: "ts_type option") (children: "ast_node list")

section \<open>Errors and numbers\<close>

text \<open>
  The two ways the analysis can throw: the explicit \<open>throw Error\<close> of
  \<open>getParentClassMetrics\<close>, and the \<open>TypeError\<close> of reading index 0 of an undefined
  \<open>declarations\<close> behind the non-null assertion in \<open>PropertyMetrics.analyze\<close>.
\<close>

datatype error = UnexpectedBaseClassesNumber nat | TypeError

text \<open>
  Counters are natural numbers (they stay far below \<open>2^53\<close>, where doubles are exact).
  The quotient of two counters is \<open>NaN\<close> for \<open>0 / 0\<close>, \<open>Infinity\<close> for a positive
  counter over \<open>0\<close>, and otherwise the quotient, kept exact here (the rounding of the
  double is left out).
\<close>

datatype js_number = JsNaN | JsInfinity | JsFinite rat

definition jsDivide :: "nat \<Rightarrow> nat \<Rightarrow> js_number" where
  "jsDivide n d =
     (if d = 0 then (if n = 0 then JsNaN else JsInfinity)
      else JsFinite (of_nat n / of_nat d))"

record MoodMetric =
  divided :: nat
  divider :: nat

definition newMoodMetric :: MoodMetric where
  "newMoodMetric = \<lparr>divided = 0, divider = 0\<rparr>"

definition calculate :: "MoodMetric \<Rightarrow> js_number" where
  "calculate m = jsDivide (divided m) (divider m)"

section \<open>PropertyMetrics\<close>

text \<open>
  The class \<open>PropertyMetrics\<close>, with \<open>ClassMetrics\<close>, which its \<open>analyze\<close> reads the
  parent's properties from. Its \<open>length()\<close> is \<open>lengthPM\<close> and its \<open>analyze\<close> is
  \<open>analyzeProps\<close> here; a method takes \<open>this\<close> and returns it updated.
\<close>

datatype prop_type = Methods | Attributes

record PropertyMetrics =
  privateCount :: nat
  inherited :: "prop_decl list"
  overridden :: "prop_decl list"
  own :: "prop_decl list"
  propType :: prop_type

definition newPropertyMetrics :: "prop_type \<Rightarrow> PropertyMetrics" where
  "newPropertyMetrics pt =
     \<lparr>privateCount = 0, inherited = [], overridden = [], own = [], propType = pt\<rparr>"

definition allProps :: "PropertyMetrics \<Rightarrow> prop_decl list" where
  "allProps this = inherited this @ overridden this @ own this"

definition lengthPM :: "PropertyMetrics \<Rightarrow> nat" where
  "lengthPM this = length (allProps this) + privateCount this"

definition IS_ATTR_DECL :: "(prop_decl \<Rightarrow> bool) list" where
  "IS_ATTR_DECL =
     [\<lambda>d. kind d = PropertyDeclaration, \<lambda>d. kind d = Parameter, \<lambda>d. kind d = GetAccessor]"

definition PRIVATE_MODIFIERS :: "syntax_kind list" where
  "PRIVATE_MODIFIERS = [PrivateKeyword, PrivateIdentifier]"

definition isOfType :: "prop_type \<Rightarrow> prop_decl \<Rightarrow> bool" where
  "isOfType pt propDecl =
     (if pt = Methods then kind propDecl = MethodDeclaration
      else list_ex (\<lambda>is. is propDecl) IS_ATTR_DECL)"

definition isPrivate :: "prop_decl \<Rightarrow> bool" where
  "isPrivate decl =
     (case modifiers decl of
        None \<Rightarrow> False
      | Some ms \<Rightarrow> list_ex (\<lambda>modifier. modifier \<in> set PRIVATE_MODIFIERS) ms)"

record ClassMetrics =
  className :: string
  classPath :: string
  parentClass :: string
  depthOfInheritance :: nat
  numberOfChildren :: nat
  methods :: PropertyMetrics
  attributes :: PropertyMetrics

definition newClassMetrics :: ClassMetrics where
  "newClassMetrics =
     \<lparr>className = [], classPath = [], parentClass = [],
      depthOfInheritance = 0, numberOfChildren = 0,
      methods = newPropertyMetrics Methods, attributes = newPropertyMetrics Attributes\<rparr>"

text \<open>\<open>parentClass?.[this.propType]?.allProps() ?? []\<close>\<close>

definition parentPropsOf :: "prop_type \<Rightarrow> ClassMetrics option \<Rightarrow> prop_decl list" where
  "parentPropsOf pt parentCls =
     (case parentCls of
        None \<Rightarrow> []
      | Some pc \<Rightarrow> allProps (case pt of Methods \<Rightarrow> methods pc | Attributes \<Rightarrow> attributes pc))"

text \<open>
  The body of the \<open>for\<close> loop of \<open>PropertyMetrics.analyze\<close>, over the properties still to
  visit. \<open>classDecl\<close> is read only for a property whose name the parent has, and the read
  throws when the class has no \<open>declarations\<close> array; with an empty array \<open>classDecl\<close> is
  undefined and no \<open>parent\<close> is identical to it.
\<close>

fun analyzeLoop ::
  "prop_decl list \<Rightarrow> ts_type \<Rightarrow> PropertyMetrics \<Rightarrow> ts_symbol list \<Rightarrow> error + PropertyMetrics"
where
  "analyzeLoop parentProps classType this [] = Inr this"
| "analyzeLoop parentProps classType this (prop # props) =
     (case first0 prop of
        None \<Rightarrow> analyzeLoop parentProps classType this props
      | Some propDecl \<Rightarrow>
          if \<not> isOfType (propType this) propDecl
          then analyzeLoop parentProps classType this props
          else
            let this1 = (if isPrivate propDecl
                         then this\<lparr>privateCount := privateCount this + 1\<rparr> else this);
                declName = nameText propDecl;
                isInherited = list_ex (\<lambda>p. nameText p = declName) parentProps
            in if \<not> isInherited
               then analyzeLoop parentProps classType (this1\<lparr>own := own this1 @ [propDecl]\<rparr>) props
               else
                 (case symbolDeclarations classType of
                    None \<Rightarrow> Inl TypeError
                  | Some ds \<Rightarrow>
                      if (case ds of [] \<Rightarrow> False | classDecl # _ \<Rightarrow> parent propDecl = nodeId classDecl)
                      then analyzeLoop parentProps classType
                             (this1\<lparr>overridden := overridden this1 @ [propDecl]\<rparr>) props
                      else analyzeLoop parentProps classType
                             (this1\<lparr>inherited := inherited this1 @ [propDecl]\<rparr>) props))"

definition analyzeProps ::
  "PropertyMetrics \<Rightarrow> ClassMetrics option \<Rightarrow> ts_type \<Rightarrow> error + PropertyMetrics" where
  "analyzeProps this parentCls classType =
     analyzeLoop (parentPropsOf (propType this) parentCls) classType this
       (getProperties classType)"

section \<open>Analyzer\<close>

text \<open>Decimal digits of a number, for \<open>`${file.fileName}:${pos.line + 1}:${pos.character + 1}`\<close>.\<close>

definition digitChar :: "nat \<Rightarrow> char" where
  "digitChar d = char_of (48 + d)"

fun showNat :: "nat \<Rightarrow> string" where
  "showNat n = (if n < 10 then [digitChar n] else showNat (n div 10) @ [digitChar (n mod 10)])"

declare showNat.simps [simp del]

definition getAbsolutePosition :: "node \<Rightarrow> string" where
  "getAbsolutePosition nd =
     fileName nd @ '':'' @ showNat (line nd + 1) @ '':'' @ showNat (character nd + 1)"

text \<open>
  \<open>this.classes\<close> is a list of objects that are mutated in place, so a \<open>ClassMetrics\<close>
  reference is modelled as the index of the object in the list. \<open>Array.find\<close> returns the
  first element that satisfies the test.
\<close>

fun findIndex :: "('a \<Rightarrow> bool) \<Rightarrow> 'a list \<Rightarrow> nat option" where
  "findIndex P [] = None"
| "findIndex P (x # xs) = (if P x then Some 0 else map_option Suc (findIndex P xs))"

definition classNameOf :: "ts_type \<Rightarrow> string" where
  "classNameOf classType = typeToString classType"

definition classPathOf :: "ts_type \<Rightarrow> string" where
  "classPathOf classType =
     (case first0 (symbolDeclarations classType) of
        None \<Rightarrow> []
      | Some typeDecl \<Rightarrow> getAbsolutePosition typeDecl)"

text \<open>
  \<open>getClassMetrics\<close> and \<open>getParentClassMetrics\<close> call each other. Both take the registry
  \<open>this.classes\<close> and return it updated, with the reference they return; a \<open>throw\<close> is
  \<open>Inl\<close> and leaves no registry behind.
\<close>

function getClassMetrics ::
    "ClassMetrics list \<Rightarrow> ts_type \<Rightarrow> error + (ClassMetrics list \<times> nat)"
  and getParentClassMetrics ::
    "ClassMetrics list \<Rightarrow> ts_type \<Rightarrow> error + (ClassMetrics list \<times> nat option)"
where
  "getClassMetrics classes classType =
     (let cName = classNameOf classType;
          cPath = classPathOf classType
      in (case findIndex (\<lambda>oneClass. className oneClass = cName \<and> classPath oneClass = cPath) classes of
           Some isAlreadyAnalyzed \<Rightarrow> Inr (classes, isAlreadyAnalyzed)
         | None \<Rightarrow>
             (case getParentClassMetrics classes classType of
                Inl e \<Rightarrow> Inl e
              | Inr (classes1, parentCls) \<Rightarrow>
                  let result0 = newClassMetrics\<lparr>className := cName, classPath := cPath\<rparr>;
                      classes2 =
                        (case parentCls of
                           None \<Rightarrow> classes1
                         | Some p \<Rightarrow>
                             classes1[p := (classes1 ! p)
                               \<lparr>numberOfChildren := numberOfChildren (classes1 ! p) + 1\<rparr>]);
                      result1 =
                        (case parentCls of
                           None \<Rightarrow> result0
                         | Some p \<Rightarrow>
                             result0
                               \<lparr>depthOfInheritance :=
                                  depthOfInheritance result0 + (1 + depthOfInheritance (classes2 ! p)),
                                parentClass := className (classes2 ! p)\<rparr>);
                      parentObj = map_option (\<lambda>p. classes2 ! p) parentCls
                  in (case analyzeProps (methods result1) parentObj classType of
                       Inl e \<Rightarrow> Inl e
                     | Inr ms \<Rightarrow>
                         (case analyzeProps (attributes result1) parentObj classType of
                            Inl e \<Rightarrow> Inl e
                          | Inr ats \<Rightarrow>
                              Inr (classes2 @ [result1\<lparr>methods := ms, attributes := ats\<rparr>],
                                   length classes2))))))"
| "getParentClassMetrics classes classType =
     (case getBaseTypes classType of
        None \<Rightarrow> Inr (classes, None)
      | Some [] \<Rightarrow> Inr (classes, None)
      | Some [baseType] \<Rightarrow>
          (case getClassMetrics classes baseType of
             Inl e \<Rightarrow> Inl e
           | Inr (classes1, p) \<Rightarrow> Inr (classes1, Some p))
      | Some (b1 # b2 # bs) \<Rightarrow> Inl (UnexpectedBaseClassesNumber (length (b1 # b2 # bs))))"
  by pat_completeness auto
termination
  apply (relation "measure (\<lambda>x. case x of Inl (cs, t) \<Rightarrow> 2 * size t + 1 | Inr (cs, t) \<Rightarrow> 2 * size t)")
    apply simp
   apply simp
  subgoal for classes classType bs baseType
    by (cases classType) simp
  done

declare getClassMetrics.simps [simp del]
declare getParentClassMetrics.simps [simp del]

text \<open>
  \<open>analyzeClass\<close> visits a node and then its children, in order; \<open>analyzeNodes\<close> is the
  iteration over a list of nodes, for \<open>forEachChild\<close> and for \<open>nodes.forEach\<close>. The
  callback returns nothing, so \<open>forEachChild\<close> never stops early.
\<close>

fun analyzeClass :: "ClassMetrics list \<Rightarrow> ast_node \<Rightarrow> error + ClassMetrics list"
  and analyzeNodes :: "ClassMetrics list \<Rightarrow> ast_node list \<Rightarrow> error + ClassMetrics list"
where
  "analyzeClass classes (AstNode potentialClass kids) =
     (case potentialClass of
        None \<Rightarrow> analyzeNodes classes kids
      | Some classType \<Rightarrow>
          (case getClassMetrics classes classType of
             Inl e \<Rightarrow> Inl e
           | Inr (classes1, r) \<Rightarrow> analyzeNodes classes1 kids))"
| "analyzeNodes classes [] = Inr classes"
| "analyzeNodes classes (n # ns) =
     (case analyzeClass classes n of
        Inl e \<Rightarrow> Inl e
      | Inr classes1 \<Rightarrow> analyzeNodes classes1 ns)"

text \<open>The five accumulators of \<open>analyze\<close>, and one turn of its \<open>for\<close> loop.\<close>

record mood_metrics =
  mifM :: MoodMetric
  aifM :: MoodMetric
  mhfM :: MoodMetric
  ahfM :: MoodMetric
  pofM :: MoodMetric

definition newMoodMetrics :: mood_metrics where
  "newMoodMetrics =
     \<lparr>mifM = newMoodMetric, aifM = newMoodMetric, mhfM = newMoodMetric,
      ahfM = newMoodMetric, pofM = newMoodMetric\<rparr>"

definition addTo :: "MoodMetric \<Rightarrow> nat \<Rightarrow> nat \<Rightarrow> MoodMetric" where
  "addTo m n d = \<lparr>divided = divided m + n, divider = divider m + d\<rparr>"

definition accumulate :: "mood_metrics \<Rightarrow> ClassMetrics \<Rightarrow> mood_metrics" where
  "accumulate ms oneClass =
     (let totalMethods = lengthPM (methods oneClass);
          totalAttrs = lengthPM (attributes oneClass)
      in \<lparr>mifM = addTo (mifM ms)
                   (length (inherited (methods oneClass)) + length (own (methods oneClass)))
                   totalMethods,
          aifM = addTo (aifM ms)
                   (length (inherited (attributes oneClass)) + length (own (attributes oneClass)))
                   totalAttrs,
          mhfM = addTo (mhfM ms) (privateCount (methods oneClass)) totalMethods,
          ahfM = addTo (ahfM ms) (privateCount (attributes oneClass)) totalAttrs,
          pofM = addTo (pofM ms)
                   (length (inherited (methods oneClass)) + length (overridden (methods oneClass)))
                   (length (own (methods oneClass)) * numberOfChildren oneClass)\<rparr>)"

record analysis_result =
  classes :: "ClassMetrics list"
  mif :: js_number
  aif :: js_number
  mhf :: js_number
  ahf :: js_number
  pof :: js_number

definition ratios :: "ClassMetrics list \<Rightarrow> analysis_result" where
  "ratios cs =
     (let ms = foldl accumulate newMoodMetrics cs
      in \<lparr>classes = cs,
          mif = calculate (mifM ms), aif = calculate (aifM ms), mhf = calculate (mhfM ms),
          ahf = calculate (ahfM ms), pof = calculate (pofM ms)\<rparr>)"

text \<open>
  \<open>Analyzer.analyze\<close> on a fresh analyzer, whose registry is empty. Its nodes are the
  source files the exported \<open>analyze\<close> keeps after it has left out those under
  \<open>node_modules\<close>.
\<close>

definition analyze :: "ast_node list \<Rightarrow> error + analysis_result" where
  "analyze nodes =
     (case analyzeNodes [] nodes of
        Inl e \<Rightarrow> Inl e
      | Inr cs \<Rightarrow> Inr (ratios cs))"

section \<open>formatMetrics\<close>

text \<open>
  The object that \<open>formatMetrics\<close> hands to \<open>JSON.stringify\<close>. A projected class is the
  list of its keys with their values, in the order the keys are set.
\<close>

datatype json_value = JString string | JNumber nat

record formatted_result =
  classesF :: "(string \<times> json_value) list list"
  mifF :: js_number
  aifF :: js_number
  mhfF :: js_number
  ahfF :: js_number
  pofF :: js_number
  maxNumberOfChildren :: nat
  maxDepthOfInheritance :: nat

definition clearedClass :: "ClassMetrics \<Rightarrow> (string \<times> json_value) list" where
  "clearedClass oneClass =
     [(''className'', JString (className oneClass)),
      (''numberOfChildren'', JNumber (numberOfChildren oneClass)),
      (''depthOfInheritance'', JNumber (depthOfInheritance oneClass))]
     @ (if parentClass oneClass \<noteq> [] then [(''parentClass'', JString (parentClass oneClass))]
        else [])"

definition formatMetrics :: "analysis_result \<Rightarrow> formatted_result" where
  "formatMetrics result =
     \<lparr>classesF = map clearedClass (classes result),
      mifF = mif result, aifF = aif result, mhfF = mhf result, ahfF = ahf result,
      pofF = pof result,
      maxNumberOfChildren =
        foldl (\<lambda>maxNumber oneClass.
                 if numberOfChildren oneClass > maxNumber then numberOfChildren oneClass
                 else maxNumber) 0 (classes result),
      maxDepthOfInheritance =
        foldl (\<lambda>maxNumber oneClass.
                 if depthOfInheritance oneClass > maxNumber then depthOfInheritance oneClass
                 else maxNumber) 0 (classes result)\<rparr>"

section \<open>Vocabulary of the specification\<close>

text \<open>
  The qualifying properties of a class for a kind: the first declarations of its property
  symbols, where there is one and its shape is of the kind, in the order of the symbols.
\<close>

definition qualifying :: "prop_type \<Rightarrow> ts_symbol list \<Rightarrow> prop_decl list" where
  "qualifying pt props = filter (isOfType pt) (List.map_filter first0 props)"

text \<open>The bucket of a class for a kind, and the union of the three sets of the parent's.\<close>

definition bucket :: "prop_type \<Rightarrow> ClassMetrics \<Rightarrow> PropertyMetrics" where
  "bucket pt c = (case pt of Methods \<Rightarrow> methods c | Attributes \<Rightarrow> attributes c)"

definition parentUnion :: "prop_type \<Rightarrow> ClassMetrics option \<Rightarrow> prop_decl set" where
  "parentUnion pt parentCls =
     (case parentCls of
        None \<Rightarrow> {}
      | Some pc \<Rightarrow>
          set (own (bucket pt pc)) \<union> set (inherited (bucket pt pc)) \<union> set (overridden (bucket pt pc)))"

definition nameMatches :: "prop_decl set \<Rightarrow> prop_decl \<Rightarrow> bool" where
  "nameMatches ps d = (nameText d \<in> nameText ` ps)"

text \<open>The immediate enclosing declaration of a property is the first declaration of the class.\<close>

definition declaredIn :: "ts_type \<Rightarrow> prop_decl \<Rightarrow> bool" where
  "declaredIn classType d =
     (case first0 (symbolDeclarations classType) of
        None \<Rightarrow> False
      | Some classDecl \<Rightarrow> parent d = nodeId classDecl)"

text \<open>
  The reference \<open>Array.find\<close> gives for a type in \<open>getClassMetrics\<close>, the increment of
  \<open>numberOfChildren\<close>, the object \<open>getClassMetrics\<close> pushes for a type with a given
  parent object and buckets, and the types without a base type.
\<close>

definition registered :: "ClassMetrics list \<Rightarrow> ts_type \<Rightarrow> nat option" where
  "registered cs t =
     findIndex (\<lambda>oneClass. className oneClass = classNameOf t \<and> classPath oneClass = classPathOf t) cs"

definition addChild :: "ClassMetrics \<Rightarrow> ClassMetrics" where
  "addChild c = c\<lparr>numberOfChildren := numberOfChildren c + 1\<rparr>"

definition newEntry ::
  "ts_type \<Rightarrow> ClassMetrics option \<Rightarrow> PropertyMetrics \<Rightarrow> PropertyMetrics \<Rightarrow> ClassMetrics" where
  "newEntry t parentObj ms ats =
     \<lparr>className = classNameOf t, classPath = classPathOf t,
      parentClass = (case parentObj of None \<Rightarrow> [] | Some pc \<Rightarrow> className pc),
      depthOfInheritance = (case parentObj of None \<Rightarrow> 0 | Some pc \<Rightarrow> 1 + depthOfInheritance pc),
      numberOfChildren = 0, methods = ms, attributes = ats\<rparr>"

definition rootType :: "ts_type \<Rightarrow> bool" where
  "rootType t = (getBaseTypes t = None \<or> getBaseTypes t = Some [])"

text \<open>
  The base types of a type, theirs, and so on; the identity \<open>getClassMetrics\<close> looks a
  class up by; and the programs in which a type is determined by its identity, as the
  types of one compiler run are.
\<close>

fun ancestors :: "ts_type \<Rightarrow> ts_type list" where
  "ancestors (TsType n ds bs ps) =
     (case bs of None \<Rightarrow> [] | Some bl \<Rightarrow> concat (map (\<lambda>b. b # ancestors b) bl))"

definition identityOf :: "ts_type \<Rightarrow> string \<times> string" where
  "identityOf t = (classNameOf t, classPathOf t)"

definition identityOfClass :: "ClassMetrics \<Rightarrow> string \<times> string" where
  "identityOfClass c = (className c, classPath c)"

definition consistent :: "ts_type list \<Rightarrow> bool" where
  "consistent ts = (\<forall>a\<in>set ts. \<forall>b\<in>set ts. identityOf a = identityOf b \<longrightarrow> a = b)"

text \<open>
  The length of the chain of single base types above a type, the name of its single base
  type, and the types of a list that have a given type as their single base type.
\<close>

fun depthOf :: "ts_type \<Rightarrow> nat" where
  "depthOf (TsType n ds bs ps) =
     (case bs of Some [p] \<Rightarrow> 1 + depthOf p | _ \<Rightarrow> 0)"

definition parentNameOf :: "ts_type \<Rightarrow> string" where
  "parentNameOf t = (case getBaseTypes t of Some [p] \<Rightarrow> classNameOf p | _ \<Rightarrow> [])"

definition childrenIn :: "ts_type list \<Rightarrow> ts_type \<Rightarrow> ts_type list" where
  "childrenIn ts t = filter (\<lambda>d. getBaseTypes d = Some [t]) ts"

text \<open>
  A registry represents a list of types: entry by entry it has the identity of the type,
  the length of its chain of base types as depth, the name of its base type as parent
  name, and as number of children the number of listed types whose base type it is. The
  types are listed once each, are types of the program, and every listed type with a base
  type has it listed before itself.
\<close>

definition matches :: "ts_type list \<Rightarrow> ClassMetrics list \<Rightarrow> bool" where
  "matches ts cs \<longleftrightarrow>
     map identityOfClass cs = map identityOf ts \<and>
     map depthOfInheritance cs = map depthOf ts \<and>
     map parentClass cs = map parentNameOf ts \<and>
     map numberOfChildren cs = map (\<lambda>t. length (childrenIn ts t)) ts"

definition parentsFirst :: "ts_type list \<Rightarrow> bool" where
  "parentsFirst ts \<longleftrightarrow>
     (\<forall>j<length ts. rootType (ts ! j) \<or> (\<exists>k<j. getBaseTypes (ts ! j) = Some [ts ! k]))"

definition represents :: "ts_type list \<Rightarrow> ts_type list \<Rightarrow> ClassMetrics list \<Rightarrow> bool" where
  "represents U ts cs \<longleftrightarrow> matches ts cs \<and> distinct ts \<and> set ts \<subseteq> set U \<and> parentsFirst ts"

text \<open>
  The class types the traversal meets, in its order; resolving a list of types one after
  the other; the types of a program, which are the class types it meets and their
  ancestors; and the analysis followed by the formatter, as the exported \<open>analyze\<close> runs
  them on the source files it keeps.
\<close>

fun classTypesOf :: "ast_node \<Rightarrow> ts_type list"
  and classTypesOfNodes :: "ast_node list \<Rightarrow> ts_type list"
where
  "classTypesOf (AstNode potentialClass kids) =
     (case potentialClass of None \<Rightarrow> [] | Some classType \<Rightarrow> [classType]) @ classTypesOfNodes kids"
| "classTypesOfNodes [] = []"
| "classTypesOfNodes (n # ns) = classTypesOf n @ classTypesOfNodes ns"

fun resolveAll :: "ClassMetrics list \<Rightarrow> ts_type list \<Rightarrow> error + ClassMetrics list" where
  "resolveAll cs [] = Inr cs"
| "resolveAll cs (t # ts) =
     (case getClassMetrics cs t of
        Inl e \<Rightarrow> Inl e
      | Inr (cs1, r) \<Rightarrow> resolveAll cs1 ts)"

definition withAncestors :: "ts_type list \<Rightarrow> ts_type list" where
  "withAncestors ts = concat (map (\<lambda>t. t # ancestors t) ts)"

definition universe :: "ast_node list \<Rightarrow> ts_type list" where
  "universe nodes = withAncestors (classTypesOfNodes nodes)"


text \<open>
  What an error of the analysis tells about the types it went through: a \<open>TypeError\<close>
  comes from a type without \<open>declarations\<close>, and the other error from a type with two
  base types or more, whose number it carries.
\<close>

definition failureOf :: "ts_type list \<Rightarrow> error \<Rightarrow> bool" where
  "failureOf ts e \<longleftrightarrow>
     (e = TypeError \<and> (\<exists>a\<in>set ts. symbolDeclarations a = None)) \<or>
     (\<exists>a\<in>set ts. \<exists>bs. getBaseTypes a = Some bs \<and> 2 \<le> length bs \<and>
        e = UnexpectedBaseClassesNumber (length bs))"

text \<open>
  When a class of the registry has an inherited or an overridden method, a class of the
  registry has a method of its own and a child.
\<close>

definition polymorphismGrounded :: "ClassMetrics list \<Rightarrow> bool" where
  "polymorphismGrounded cs \<longleftrightarrow>
     ((\<exists>c\<in>set cs. inherited (methods c) \<noteq> [] \<or> overridden (methods c) \<noteq> []) \<longrightarrow>
      (\<exists>r\<in>set cs. own (methods r) \<noteq> [] \<and> 0 < numberOfChildren r))"

text \<open>
  Every class of a registry either has depth \<open>0\<close> and no parent name, or has one more than
  the depth of an earlier class, whose name is its parent name.
\<close>

definition parentsListed :: "ClassMetrics list \<Rightarrow> bool" where
  "parentsListed cs \<longleftrightarrow>
     (\<forall>i<length cs.
        (depthOfInheritance (cs ! i) = 0 \<and> parentClass (cs ! i) = []) \<or>
        (\<exists>k<i. depthOfInheritance (cs ! i) = 1 + depthOfInheritance (cs ! k) \<and>
               parentClass (cs ! i) = className (cs ! k)))"

text \<open>
  A registry is a forest under an assignment of parents: a class without a parent has
  depth \<open>0\<close> and no parent name, a class with a parent stands after it, is one deeper
  and carries its name, and the number of children of a class is the number of classes
  whose parent it is.
\<close>

definition forest :: "(nat \<Rightarrow> nat option) \<Rightarrow> ClassMetrics list \<Rightarrow> bool" where
  "forest par cs \<longleftrightarrow>
     (\<forall>i<length cs.
        case par i of
          None \<Rightarrow> depthOfInheritance (cs ! i) = 0 \<and> parentClass (cs ! i) = []
        | Some k \<Rightarrow>
            k < i \<and> depthOfInheritance (cs ! i) = 1 + depthOfInheritance (cs ! k) \<and>
            parentClass (cs ! i) = className (cs ! k)) \<and>
     (\<forall>k<length cs. numberOfChildren (cs ! k) = card {i. i < length cs \<and> par i = Some k})"

text \<open>
  A type with two base types or more; a type none of whose namesakes among given types
  (the types with its identity, itself included) has fewer; and the registries whose
  every class has the identity of one of the given types with fewer than two base types.
\<close>

definition hasMultipleBaseTypes :: "ts_type \<Rightarrow> bool" where
  "hasMultipleBaseTypes t = (case getBaseTypes t of None \<Rightarrow> False | Some bs \<Rightarrow> 2 \<le> length bs)"



text \<open>
  The mean of the per-class ratios of a numerator and a denominator, which the
  specification sets against the aggregate fraction.
\<close>

definition meanOfRatios :: "(ClassMetrics \<Rightarrow> nat) \<Rightarrow> (ClassMetrics \<Rightarrow> nat) \<Rightarrow> ClassMetrics list \<Rightarrow> rat" where
  "meanOfRatios num den cs =
     (\<Sum>c\<leftarrow>cs. of_nat (num c) / of_nat (den c)) / of_nat (length cs)"

section \<open>An example program\<close>

text \<open>
  Class \<open>A\<close> declares a private method \<open>m\<close>, a method \<open>k\<close> and a private field \<open>x\<close>;
  class \<open>B extends A\<close> declares \<open>m\<close> again and a new private method \<open>n\<close>. The traversal
  meets \<open>B\<close> before \<open>A\<close>.
\<close>

definition exampleDeclA :: node where
  "exampleDeclA = \<lparr>nodeId = 1, fileName = ''shapes.ts'', line = 0, character = 0\<rparr>"

definition exampleDeclB :: node where
  "exampleDeclB = \<lparr>nodeId = 2, fileName = ''shapes.ts'', line = 6, character = 0\<rparr>"

definition exampleM_A :: prop_decl where
  "exampleM_A =
     \<lparr>kind = MethodDeclaration, nameText = ''m'', modifiers = Some [PrivateKeyword], parent = 1\<rparr>"

definition exampleK_A :: prop_decl where
  "exampleK_A = \<lparr>kind = MethodDeclaration, nameText = ''k'', modifiers = None, parent = 1\<rparr>"

definition exampleX_A :: prop_decl where
  "exampleX_A =
     \<lparr>kind = PropertyDeclaration, nameText = ''x'', modifiers = Some [PrivateKeyword], parent = 1\<rparr>"

definition exampleM_B :: prop_decl where
  "exampleM_B =
     \<lparr>kind = MethodDeclaration, nameText = ''m'', modifiers = Some [PrivateKeyword], parent = 2\<rparr>"

definition exampleN_B :: prop_decl where
  "exampleN_B =
     \<lparr>kind = MethodDeclaration, nameText = ''n'', modifiers = Some [PrivateKeyword], parent = 2\<rparr>"

definition exampleA :: ts_type where
  "exampleA =
     TsType ''A'' (Some [exampleDeclA]) None
       [Some [exampleM_A], Some [exampleK_A], Some [exampleX_A]]"

definition exampleB :: ts_type where
  "exampleB =
     TsType ''B'' (Some [exampleDeclB]) (Some [exampleA])
       [Some [exampleM_B], Some [exampleK_A], None, Some [exampleN_B], Some [exampleX_A]]"

definition exampleProgram :: "ast_node list" where
  "exampleProgram = [AstNode None [AstNode (Some exampleB) [], AstNode (Some exampleA) []]]"

text \<open>The metrics of \<open>A\<close> and of \<open>B\<close> once the example program is analyzed.\<close>

definition exampleA_metrics :: ClassMetrics where
  "exampleA_metrics =
     \<lparr>className = ''A'', classPath = ''shapes.ts:1:1'', parentClass = [],
      depthOfInheritance = 0, numberOfChildren = 1,
      methods = \<lparr>privateCount = 1, inherited = [], overridden = [],
                 own = [exampleM_A, exampleK_A], propType = Methods\<rparr>,
      attributes = \<lparr>privateCount = 1, inherited = [], overridden = [],
                    own = [exampleX_A], propType = Attributes\<rparr>\<rparr>"

definition exampleB_methods :: PropertyMetrics where
  "exampleB_methods =
     \<lparr>privateCount = 2, inherited = [exampleK_A], overridden = [exampleM_B],
      own = [exampleN_B], propType = Methods\<rparr>"

definition exampleB_metrics :: ClassMetrics where
  "exampleB_metrics =
     \<lparr>className = ''B'', classPath = ''shapes.ts:7:1'', parentClass = ''A'',
      depthOfInheritance = 1, numberOfChildren = 0,
      methods = exampleB_methods,
      attributes = \<lparr>privateCount = 1, inherited = [exampleX_A], overridden = [],
                    own = [], propType = Attributes\<rparr>\<rparr>"

text \<open>
  A third class \<open>C extends B\<close>, which has \<open>k\<close> from \<open>A\<close>, and a program whose traversal
  meets \<open>C\<close>, then \<open>B\<close>, then \<open>A\<close>: \<open>B\<close> and \<open>A\<close> are first resolved as ancestors and
  met again later. The registry this program leaves is \<open>A\<close>, \<open>B\<close>, \<open>C\<close>.
\<close>

definition exampleDeclC :: node where
  "exampleDeclC = \<lparr>nodeId = 3, fileName = ''shapes.ts'', line = 12, character = 0\<rparr>"

definition exampleC :: ts_type where
  "exampleC = TsType ''C'' (Some [exampleDeclC]) (Some [exampleB]) [Some [exampleK_A]]"

definition exampleHierarchy :: "ast_node list" where
  "exampleHierarchy =
     [AstNode None [AstNode (Some exampleC) [], AstNode (Some exampleB) [], AstNode (Some exampleA) []]]"

definition exampleC_metrics :: ClassMetrics where
  "exampleC_metrics =
     \<lparr>className = ''C'', classPath = ''shapes.ts:13:1'', parentClass = ''B'',
      depthOfInheritance = 2, numberOfChildren = 0,
      methods = \<lparr>privateCount = 0, inherited = [exampleK_A], overridden = [],
                 own = [], propType = Methods\<rparr>,
      attributes = \<lparr>privateCount = 0, inherited = [], overridden = [],
                    own = [], propType = Attributes\<rparr>\<rparr>"

definition exampleRegistry :: "ClassMetrics list" where
  "exampleRegistry =
     [exampleA_metrics, exampleB_metrics\<lparr>numberOfChildren := 1\<rparr>, exampleC_metrics]"

text \<open>
  A class \<open>D\<close> with the two base types \<open>A\<close> and \<open>B\<close>, and a program whose traversal meets
  \<open>B\<close> and then \<open>D\<close>.
\<close>

definition exampleDeclD :: node where
  "exampleDeclD = \<lparr>nodeId = 4, fileName = ''shapes.ts'', line = 20, character = 0\<rparr>"

definition exampleD :: ts_type where
  "exampleD = TsType ''D'' (Some [exampleDeclD]) (Some [exampleA, exampleB]) []"

definition exampleUnsupported :: "ast_node list" where
  "exampleUnsupported = [AstNode None [AstNode (Some exampleB) [], AstNode (Some exampleD) []]]"

text \<open>A program with the class \<open>A\<close> alone.\<close>

definition exampleAlone :: "ast_node list" where
  "exampleAlone = [AstNode None [AstNode (Some exampleA) []]]"










section \<open>The property classifier\<close>

lemma qualifying_Nil [simp]: "qualifying pt [] = []"
  by (simp add: qualifying_def map_filter_simps)

lemma qualifying_Cons:
  "qualifying pt (s # props) =
     (case first0 s of
        None \<Rightarrow> qualifying pt props
      | Some d \<Rightarrow> if isOfType pt d then d # qualifying pt props else qualifying pt props)"
  by (simp add: qualifying_def map_filter_simps split: option.splits)

lemma list_ex_nameMatches:
  "list_ex (\<lambda>p. nameText p = nameText d) parentProps = nameMatches (set parentProps) d"
  unfolding nameMatches_def list_ex_iff image_iff by metis

lemma declaredIn_Some:
  "symbolDeclarations classType = Some ds \<Longrightarrow>
   (case ds of [] \<Rightarrow> False | classDecl # _ \<Rightarrow> parent d = nodeId classDecl) = declaredIn classType d"
  by (cases ds) (simp_all add: declaredIn_def)

lemma set_parentPropsOf: "set (parentPropsOf pt parentCls) = parentUnion pt parentCls"
  by (cases pt) (auto simp: parentPropsOf_def parentUnion_def bucket_def allProps_def split: option.splits)

text \<open>
  What the loop adds to the bucket it starts from, when it does not throw: every
  qualifying property goes to the set its name and its enclosing declaration select, and
  the private ones are counted besides.
\<close>

lemma analyzeLoop_spec:
  "analyzeLoop parentProps classType this props = Inr pm \<Longrightarrow>
   propType pm = propType this \<and>
   privateCount pm =
     privateCount this + length (filter isPrivate (qualifying (propType this) props)) \<and>
   own pm =
     own this @
       filter (\<lambda>d. \<not> nameMatches (set parentProps) d) (qualifying (propType this) props) \<and>
   inherited pm =
     inherited this @
       filter (\<lambda>d. nameMatches (set parentProps) d \<and> \<not> declaredIn classType d)
         (qualifying (propType this) props) \<and>
   overridden pm =
     overridden this @
       filter (\<lambda>d. nameMatches (set parentProps) d \<and> declaredIn classType d)
         (qualifying (propType this) props)"
proof (induction props arbitrary: this)
  case Nil
  then show ?case by simp
next
  case (Cons s props)
  show ?case
  proof (cases "first0 s")
    case None
    with Cons show ?thesis by (simp add: qualifying_Cons)
  next
    case (Some d)
    show ?thesis
    proof (cases "isOfType (propType this) d")
      case False
      with Some Cons show ?thesis by (simp add: qualifying_Cons)
    next
      case True
      define this1 where
        "this1 = (if isPrivate d then this\<lparr>privateCount := privateCount this + 1\<rparr> else this)"
      show ?thesis
      proof (cases "nameMatches (set parentProps) d")
        case False
        with Cons.prems Some True
        have run: "analyzeLoop parentProps classType (this1\<lparr>own := own this1 @ [d]\<rparr>) props = Inr pm"
          by (simp add: Let_def list_ex_nameMatches this1_def)
        from Cons.IH[OF run] Some True False show ?thesis
          by (simp add: qualifying_Cons this1_def)
      next
        case match: True
        from Cons.prems Some True match obtain ds where ds: "symbolDeclarations classType = Some ds"
          by (auto simp: Let_def list_ex_nameMatches split: option.splits)
        show ?thesis
        proof (cases "declaredIn classType d")
          case True
          with Cons.prems Some \<open>isOfType (propType this) d\<close> match ds
          have run: "analyzeLoop parentProps classType
                       (this1\<lparr>overridden := overridden this1 @ [d]\<rparr>) props = Inr pm"
            by (simp add: Let_def list_ex_nameMatches this1_def declaredIn_Some)
          from Cons.IH[OF run] Some \<open>isOfType (propType this) d\<close> match True show ?thesis
            by (simp add: qualifying_Cons this1_def)
        next
          case False
          with Cons.prems Some \<open>isOfType (propType this) d\<close> match ds
          have run: "analyzeLoop parentProps classType
                       (this1\<lparr>inherited := inherited this1 @ [d]\<rparr>) props = Inr pm"
            by (simp add: Let_def list_ex_nameMatches this1_def declaredIn_Some)
          from Cons.IH[OF run] Some \<open>isOfType (propType this) d\<close> match False show ?thesis
            by (simp add: qualifying_Cons this1_def)
        qed
      qed
    qed
  qed
qed

lemma analyzeProps_spec:
  assumes "analyzeProps (newPropertyMetrics pt) parentCls classType = Inr pm"
  shows "propType pm = pt"
    and "privateCount pm = length (filter isPrivate (qualifying pt (getProperties classType)))"
    and "own pm =
           filter (\<lambda>d. \<not> nameMatches (parentUnion pt parentCls) d)
             (qualifying pt (getProperties classType))"
    and "inherited pm =
           filter (\<lambda>d. nameMatches (parentUnion pt parentCls) d \<and> \<not> declaredIn classType d)
             (qualifying pt (getProperties classType))"
    and "overridden pm =
           filter (\<lambda>d. nameMatches (parentUnion pt parentCls) d \<and> declaredIn classType d)
             (qualifying pt (getProperties classType))"
  using analyzeLoop_spec[OF assms[unfolded analyzeProps_def]]
  by (simp_all add: newPropertyMetrics_def set_parentPropsOf)

lemma length_three_filters:
  "length (filter (\<lambda>d. \<not> M d) xs) + length (filter (\<lambda>d. M d \<and> \<not> E d) xs)
     + length (filter (\<lambda>d. M d \<and> E d) xs) = length xs"
  by (induction xs) auto

lemma example_classification:
  "analyzeProps (newPropertyMetrics Methods) (Some exampleA_metrics) exampleB = Inr exampleB_methods"
  by code_simp

text \<open>
  The classifier throws only for a class without \<open>declarations\<close> that has a parent; on
  every other class it returns a bucket.
\<close>

lemma analyzeLoop_Inl:
  "analyzeLoop parentProps classType this props = Inl e \<Longrightarrow>
   e = TypeError \<and> symbolDeclarations classType = None"
proof (induction props arbitrary: this)
  case Nil
  then show ?case by simp
next
  case (Cons s props)
  from Cons.prems show ?case
    by (auto simp: Let_def split: option.splits if_splits dest: Cons.IH)
qed

lemma analyzeProps_Inl:
  "analyzeProps this parentCls classType = Inl e \<Longrightarrow>
   e = TypeError \<and> symbolDeclarations classType = None"
  unfolding analyzeProps_def by (rule analyzeLoop_Inl)

lemma analyzeLoop_no_parent:
  "\<exists>pm. analyzeLoop [] classType this props = Inr pm"
  by (induction props arbitrary: this) (auto simp: Let_def split: option.splits)

lemma analyzeProps_Inl_parent:
  "analyzeProps this parentCls classType = Inl e \<Longrightarrow>
   e = TypeError \<and> symbolDeclarations classType = None \<and> parentCls \<noteq> None"
proof (intro conjI)
  assume err: "analyzeProps this parentCls classType = Inl e"
  then show "e = TypeError" "symbolDeclarations classType = None"
    by (auto dest: analyzeProps_Inl)
  show "parentCls \<noteq> None"
  proof
    assume "parentCls = None"
    with err have "analyzeLoop [] classType this (getProperties classType) = Inl e"
      by (simp add: analyzeProps_def parentPropsOf_def)
    with analyzeLoop_no_parent[of classType this "getProperties classType"] show False
      by auto
  qed
qed

lemma analyzeProps_succeeds:
  "symbolDeclarations classType \<noteq> None \<or> parentCls = None \<Longrightarrow>
   \<exists>pm. analyzeProps this parentCls classType = Inr pm"
  by (cases "analyzeProps this parentCls classType") (auto dest: analyzeProps_Inl_parent)

text \<open>
  C3: the classifier of a kind returns a bucket for every class that has \<open>declarations\<close>
  or no parent, and in the bucket it returns every qualifying property is placed by the
  lookup of its name among the names of the parent's own, inherited and overridden
  properties (no names when there is no parent): no match, own; a match and the enclosing
  declaration is not the class, inherited; a match and the enclosing declaration is the
  class, overridden. The three sets are pairwise disjoint and together hold exactly the
  qualifying properties.
\<close>

theorem analyze_places_each_property_in_one_set:
  "(symbolDeclarations classType \<noteq> None \<or> parentCls = None \<longrightarrow>
      (\<exists>pm. analyzeProps (newPropertyMetrics pt) parentCls classType = Inr pm)) \<and>
   (analyzeProps (newPropertyMetrics pt) parentCls classType = Inr pm \<longrightarrow>
      own pm =
        filter (\<lambda>d. \<not> nameMatches (parentUnion pt parentCls) d)
          (qualifying pt (getProperties classType)) \<and>
      inherited pm =
        filter (\<lambda>d. nameMatches (parentUnion pt parentCls) d \<and> \<not> declaredIn classType d)
          (qualifying pt (getProperties classType)) \<and>
      overridden pm =
        filter (\<lambda>d. nameMatches (parentUnion pt parentCls) d \<and> declaredIn classType d)
          (qualifying pt (getProperties classType)) \<and>
      set (own pm) \<inter> set (inherited pm) = {} \<and>
      set (own pm) \<inter> set (overridden pm) = {} \<and>
      set (inherited pm) \<inter> set (overridden pm) = {} \<and>
      set (own pm) \<union> set (inherited pm) \<union> set (overridden pm) =
        set (qualifying pt (getProperties classType)))"
proof (intro conjI impI)
  assume "symbolDeclarations classType \<noteq> None \<or> parentCls = None"
  then show "\<exists>pm. analyzeProps (newPropertyMetrics pt) parentCls classType = Inr pm"
    by (rule analyzeProps_succeeds)
next
  assume run: "analyzeProps (newPropertyMetrics pt) parentCls classType = Inr pm"
  note spec = analyzeProps_spec[OF run]
  show "own pm =
        filter (\<lambda>d. \<not> nameMatches (parentUnion pt parentCls) d)
          (qualifying pt (getProperties classType))"
    and "inherited pm =
        filter (\<lambda>d. nameMatches (parentUnion pt parentCls) d \<and> \<not> declaredIn classType d)
          (qualifying pt (getProperties classType))"
    and "overridden pm =
        filter (\<lambda>d. nameMatches (parentUnion pt parentCls) d \<and> declaredIn classType d)
          (qualifying pt (getProperties classType))"
    by (rule spec)+
  show "set (own pm) \<inter> set (inherited pm) = {}"
    and "set (own pm) \<inter> set (overridden pm) = {}"
    and "set (inherited pm) \<inter> set (overridden pm) = {}"
    and "set (own pm) \<union> set (inherited pm) \<union> set (overridden pm) =
           set (qualifying pt (getProperties classType))"
    unfolding spec(3,4,5) by auto
qed

theorem analyze_places_each_property_in_one_set_witness:
  "symbolDeclarations exampleB \<noteq> None \<and>
   analyzeProps (newPropertyMetrics Methods) (Some exampleA_metrics) exampleB = Inr exampleB_methods \<and>
   qualifying Methods (getProperties exampleB) = [exampleM_B, exampleK_A, exampleN_B] \<and>
   own exampleB_methods = [exampleN_B] \<and>
   inherited exampleB_methods = [exampleK_A] \<and>
   overridden exampleB_methods = [exampleM_B] \<and>
   set (own exampleB_methods) \<inter> set (inherited exampleB_methods) = {} \<and>
   set (own exampleB_methods) \<inter> set (overridden exampleB_methods) = {} \<and>
   set (inherited exampleB_methods) \<inter> set (overridden exampleB_methods) = {} \<and>
   set (own exampleB_methods) \<union> set (inherited exampleB_methods) \<union> set (overridden exampleB_methods) =
     set (qualifying Methods (getProperties exampleB))"
proof -
  note run = example_classification
  have decl: "symbolDeclarations exampleB \<noteq> None"
    by (simp add: exampleB_def)
  have q: "qualifying Methods (getProperties exampleB) = [exampleM_B, exampleK_A, exampleN_B]"
    by code_simp
  have o: "own exampleB_methods = [exampleN_B]"
    and i: "inherited exampleB_methods = [exampleK_A]"
    and v: "overridden exampleB_methods = [exampleM_B]"
    by (simp_all add: exampleB_methods_def)
  from analyze_places_each_property_in_one_set[of exampleB "Some exampleA_metrics" Methods
      exampleB_methods] run
  have d1: "set (own exampleB_methods) \<inter> set (inherited exampleB_methods) = {}"
    and d2: "set (own exampleB_methods) \<inter> set (overridden exampleB_methods) = {}"
    and d3: "set (inherited exampleB_methods) \<inter> set (overridden exampleB_methods) = {}"
    and u: "set (own exampleB_methods) \<union> set (inherited exampleB_methods) \<union>
            set (overridden exampleB_methods) = set (qualifying Methods (getProperties exampleB))"
    by blast+
  show ?thesis
    by (intro conjI) (rule decl run q o i v d1 d2 d3 u)+
qed

text \<open>
  C7: \<open>length()\<close> of a bucket is the sum of the sizes of its three sets and of its
  private count. In the bucket the classifier returns, the three sets hold the qualifying
  properties once each and the private count is the number of qualifying properties with
  a private marker, whatever set they went to: \<open>length()\<close> counts a private property
  twice.
\<close>

theorem length_counts_private_properties_twice:
  "lengthPM this =
     length (own this) + length (inherited this) + length (overridden this) + privateCount this \<and>
   (analyzeProps (newPropertyMetrics pt) parentCls classType = Inr pm \<longrightarrow>
      privateCount pm = length (filter isPrivate (qualifying pt (getProperties classType))) \<and>
      length (own pm) + length (inherited pm) + length (overridden pm) =
        length (qualifying pt (getProperties classType)) \<and>
      lengthPM pm =
        length (qualifying pt (getProperties classType)) +
        length (filter isPrivate (qualifying pt (getProperties classType))))"
proof (intro conjI impI)
  show len: "lengthPM this =
      length (own this) + length (inherited this) + length (overridden this) + privateCount this"
    for this
    by (simp add: lengthPM_def allProps_def)
  assume run: "analyzeProps (newPropertyMetrics pt) parentCls classType = Inr pm"
  note spec = analyzeProps_spec[OF run]
  show p: "privateCount pm = length (filter isPrivate (qualifying pt (getProperties classType)))"
    by (rule spec(2))
  show sets: "length (own pm) + length (inherited pm) + length (overridden pm) =
      length (qualifying pt (getProperties classType))"
    unfolding spec(3,4,5) by (rule length_three_filters)
  from sets p len[of pm] show "lengthPM pm =
      length (qualifying pt (getProperties classType)) +
      length (filter isPrivate (qualifying pt (getProperties classType)))"
    by simp
qed

theorem length_counts_private_properties_twice_witness:
  "analyzeProps (newPropertyMetrics Methods) (Some exampleA_metrics) exampleB = Inr exampleB_methods \<and>
   length (qualifying Methods (getProperties exampleB)) = 3 \<and>
   length (filter isPrivate (qualifying Methods (getProperties exampleB))) = 2 \<and>
   privateCount exampleB_methods = 2 \<and>
   lengthPM exampleB_methods = 5"
proof -
  note run = example_classification
  have q: "length (qualifying Methods (getProperties exampleB)) = 3"
    by code_simp
  have p: "length (filter isPrivate (qualifying Methods (getProperties exampleB))) = 2"
    by code_simp
  from length_counts_private_properties_twice[of exampleB_methods Methods "Some exampleA_metrics"
      exampleB exampleB_methods] run
  have c: "privateCount exampleB_methods =
             length (filter isPrivate (qualifying Methods (getProperties exampleB)))"
    and l: "lengthPM exampleB_methods =
             length (qualifying Methods (getProperties exampleB)) +
             length (filter isPrivate (qualifying Methods (getProperties exampleB)))"
    by blast+
  have c': "privateCount exampleB_methods = 2" using c p by simp
  have l': "lengthPM exampleB_methods = 5" using l p q by simp
  show ?thesis
    by (intro conjI) (rule run q p c' l')+
qed

section \<open>The aggregator\<close>

lemma foldl_accumulate:
  "foldl accumulate ms cs =
     \<lparr>mifM = addTo (mifM ms)
               (\<Sum>c\<leftarrow>cs. length (inherited (methods c)) + length (own (methods c)))
               (\<Sum>c\<leftarrow>cs. lengthPM (methods c)),
      aifM = addTo (aifM ms)
               (\<Sum>c\<leftarrow>cs. length (inherited (attributes c)) + length (own (attributes c)))
               (\<Sum>c\<leftarrow>cs. lengthPM (attributes c)),
      mhfM = addTo (mhfM ms) (\<Sum>c\<leftarrow>cs. privateCount (methods c)) (\<Sum>c\<leftarrow>cs. lengthPM (methods c)),
      ahfM = addTo (ahfM ms) (\<Sum>c\<leftarrow>cs. privateCount (attributes c))
               (\<Sum>c\<leftarrow>cs. lengthPM (attributes c)),
      pofM = addTo (pofM ms)
               (\<Sum>c\<leftarrow>cs. length (inherited (methods c)) + length (overridden (methods c)))
               (\<Sum>c\<leftarrow>cs. length (own (methods c)) * numberOfChildren c)\<rparr>"
proof (induction cs arbitrary: ms)
  case Nil
  show ?case by (simp add: addTo_def)
next
  case (Cons c cs)
  have step: "foldl accumulate ms (c # cs) = foldl accumulate (accumulate ms c) cs"
    by simp
  show ?case
    unfolding step Cons.IH
    by (simp add: accumulate_def addTo_def Let_def add.assoc)
qed

lemma ratios_sums:
  "mif (ratios cs) =
     jsDivide (\<Sum>c\<leftarrow>cs. length (inherited (methods c)) + length (own (methods c)))
       (\<Sum>c\<leftarrow>cs. lengthPM (methods c))"
  "aif (ratios cs) =
     jsDivide (\<Sum>c\<leftarrow>cs. length (inherited (attributes c)) + length (own (attributes c)))
       (\<Sum>c\<leftarrow>cs. lengthPM (attributes c))"
  "mhf (ratios cs) =
     jsDivide (\<Sum>c\<leftarrow>cs. privateCount (methods c)) (\<Sum>c\<leftarrow>cs. lengthPM (methods c))"
  "ahf (ratios cs) =
     jsDivide (\<Sum>c\<leftarrow>cs. privateCount (attributes c)) (\<Sum>c\<leftarrow>cs. lengthPM (attributes c))"
  "pof (ratios cs) =
     jsDivide (\<Sum>c\<leftarrow>cs. length (inherited (methods c)) + length (overridden (methods c)))
       (\<Sum>c\<leftarrow>cs. length (own (methods c)) * numberOfChildren c)"
  "classes (ratios cs) = cs"
  by (simp_all add: ratios_def Let_def foldl_accumulate calculate_def addTo_def
      newMoodMetrics_def newMoodMetric_def)

lemma analyze_Inr: "analyze nodes = Inr result \<Longrightarrow> \<exists>cs. analyzeNodes [] nodes = Inr cs \<and> result = ratios cs"
  by (auto simp: analyze_def split: sum.splits)

lemma example_run: "analyze exampleProgram = Inr (ratios [exampleA_metrics, exampleB_metrics])"
  by code_simp

text \<open>
  C1: each of the five ratios of an analysis is the sum over all classes of the per-class
  numerator, divided by the sum over all classes of the per-class denominator.
\<close>

theorem ratios_are_sums_over_all_classes:
  "analyze nodes = Inr result \<Longrightarrow>
   mif result =
     jsDivide (\<Sum>c\<leftarrow>classes result. length (inherited (methods c)) + length (own (methods c)))
       (\<Sum>c\<leftarrow>classes result. lengthPM (methods c)) \<and>
   aif result =
     jsDivide (\<Sum>c\<leftarrow>classes result. length (inherited (attributes c)) + length (own (attributes c)))
       (\<Sum>c\<leftarrow>classes result. lengthPM (attributes c)) \<and>
   mhf result =
     jsDivide (\<Sum>c\<leftarrow>classes result. privateCount (methods c))
       (\<Sum>c\<leftarrow>classes result. lengthPM (methods c)) \<and>
   ahf result =
     jsDivide (\<Sum>c\<leftarrow>classes result. privateCount (attributes c))
       (\<Sum>c\<leftarrow>classes result. lengthPM (attributes c)) \<and>
   pof result =
     jsDivide (\<Sum>c\<leftarrow>classes result. length (inherited (methods c)) + length (overridden (methods c)))
       (\<Sum>c\<leftarrow>classes result. length (own (methods c)) * numberOfChildren c)"
proof -
  assume "analyze nodes = Inr result"
  then obtain cs where "result = ratios cs"
    by (auto dest: analyze_Inr)
  then show ?thesis
    by (simp only: ratios_sums)
qed

theorem ratios_are_sums_over_all_classes_witness:
  "analyze exampleProgram = Inr (ratios [exampleA_metrics, exampleB_metrics]) \<and>
   mif (ratios [exampleA_metrics, exampleB_metrics]) = JsFinite (1 / 2) \<and>
   aif (ratios [exampleA_metrics, exampleB_metrics]) = JsFinite (1 / 2) \<and>
   mhf (ratios [exampleA_metrics, exampleB_metrics]) = JsFinite (3 / 8) \<and>
   ahf (ratios [exampleA_metrics, exampleB_metrics]) = JsFinite (1 / 2) \<and>
   pof (ratios [exampleA_metrics, exampleB_metrics]) = JsFinite 1"
  using ratios_are_sums_over_all_classes[OF example_run] example_run
  by (simp add: ratios_sums exampleA_metrics_def exampleB_metrics_def exampleB_methods_def
      lengthPM_def allProps_def jsDivide_def)

text \<open>
  The aggregate is not the mean of the per-class ratios: in the example the hiding factor
  of the methods is \<open>3/8\<close>, and the mean of \<open>1/3\<close> and \<open>2/5\<close> is \<open>11/30\<close>.
\<close>

lemma aggregate_differs_from_mean_of_ratios:
  "mhf (ratios [exampleA_metrics, exampleB_metrics]) = JsFinite (3 / 8) \<and>
   meanOfRatios (\<lambda>c. privateCount (methods c)) (\<lambda>c. lengthPM (methods c))
     [exampleA_metrics, exampleB_metrics] = 11 / 30"
  by (simp add: ratios_sums meanOfRatios_def exampleA_metrics_def exampleB_metrics_def
      exampleB_methods_def lengthPM_def allProps_def jsDivide_def)

section \<open>The formatter\<close>

lemma foldl_max:
  "foldl (\<lambda>maxNumber oneClass. if f oneClass > maxNumber then f oneClass else maxNumber) a cs
     = Max (insert (a::nat) (f ` set cs))"
proof (induction cs arbitrary: a)
  case Nil
  show ?case by simp
next
  case (Cons c cs)
  have "Max (insert (if a < f c then f c else a) (f ` set cs)) =
        Max (insert a (insert (f c) (f ` set cs)))"
    by (cases "f ` set cs = {}") (auto simp: max_def)
  then show ?case by (simp add: Cons.IH)
qed

lemma Max_insert_0:
  "Max (insert (0::nat) (f ` set cs)) = (if cs = [] then 0 else Max (f ` set cs))"
  by (cases cs) (simp_all add: max_def)

text \<open>
  C9: the formatter keeps the classes in their order and projects each one to the keys
  \<open>className\<close>, \<open>numberOfChildren\<close>, \<open>depthOfInheritance\<close> and, only when the stored
  parent name is not empty, \<open>parentClass\<close>, with the values of the class; it passes the
  five ratios on; and its two maxima are the greatest number of children and the greatest
  depth over all classes, \<open>0\<close> when there is no class.
\<close>

theorem formatMetrics_projects_classes_and_maxima:
  "length (classesF (formatMetrics result)) = length (classes result) \<and>
   (\<forall>i < length (classes result).
      map fst (classesF (formatMetrics result) ! i) =
        [''className'', ''numberOfChildren'', ''depthOfInheritance''] @
        (if parentClass (classes result ! i) = [] then [] else [''parentClass'']) \<and>
      map_of (classesF (formatMetrics result) ! i) ''className'' =
        Some (JString (className (classes result ! i))) \<and>
      map_of (classesF (formatMetrics result) ! i) ''numberOfChildren'' =
        Some (JNumber (numberOfChildren (classes result ! i))) \<and>
      map_of (classesF (formatMetrics result) ! i) ''depthOfInheritance'' =
        Some (JNumber (depthOfInheritance (classes result ! i))) \<and>
      map_of (classesF (formatMetrics result) ! i) ''parentClass'' =
        (if parentClass (classes result ! i) = [] then None
         else Some (JString (parentClass (classes result ! i))))) \<and>
   mifF (formatMetrics result) = mif result \<and>
   aifF (formatMetrics result) = aif result \<and>
   mhfF (formatMetrics result) = mhf result \<and>
   ahfF (formatMetrics result) = ahf result \<and>
   pofF (formatMetrics result) = pof result \<and>
   maxNumberOfChildren (formatMetrics result) =
     (if classes result = [] then 0 else Max (numberOfChildren ` set (classes result))) \<and>
   maxDepthOfInheritance (formatMetrics result) =
     (if classes result = [] then 0 else Max (depthOfInheritance ` set (classes result)))"
proof -
  have proj: "\<forall>i < length (classes result).
      map fst (classesF (formatMetrics result) ! i) =
        [''className'', ''numberOfChildren'', ''depthOfInheritance''] @
        (if parentClass (classes result ! i) = [] then [] else [''parentClass'']) \<and>
      map_of (classesF (formatMetrics result) ! i) ''className'' =
        Some (JString (className (classes result ! i))) \<and>
      map_of (classesF (formatMetrics result) ! i) ''numberOfChildren'' =
        Some (JNumber (numberOfChildren (classes result ! i))) \<and>
      map_of (classesF (formatMetrics result) ! i) ''depthOfInheritance'' =
        Some (JNumber (depthOfInheritance (classes result ! i))) \<and>
      map_of (classesF (formatMetrics result) ! i) ''parentClass'' =
        (if parentClass (classes result ! i) = [] then None
         else Some (JString (parentClass (classes result ! i))))"
    by (simp add: formatMetrics_def clearedClass_def)
  have maxc: "maxNumberOfChildren (formatMetrics result) =
     (if classes result = [] then 0 else Max (numberOfChildren ` set (classes result)))"
    unfolding Max_insert_0[symmetric] by (simp add: formatMetrics_def foldl_max)
  have maxd: "maxDepthOfInheritance (formatMetrics result) =
     (if classes result = [] then 0 else Max (depthOfInheritance ` set (classes result)))"
    unfolding Max_insert_0[symmetric] by (simp add: formatMetrics_def foldl_max)
  have rest: "length (classesF (formatMetrics result)) = length (classes result)"
    "mifF (formatMetrics result) = mif result" "aifF (formatMetrics result) = aif result"
    "mhfF (formatMetrics result) = mhf result" "ahfF (formatMetrics result) = ahf result"
    "pofF (formatMetrics result) = pof result"
    by (simp_all add: formatMetrics_def)
  show ?thesis
    by (intro conjI) (rule proj maxc maxd rest)+
qed

theorem formatMetrics_projects_classes_and_maxima_witness:
  "map fst (classesF (formatMetrics (ratios [exampleA_metrics, exampleB_metrics])) ! 0) =
     [''className'', ''numberOfChildren'', ''depthOfInheritance''] \<and>
   map fst (classesF (formatMetrics (ratios [exampleA_metrics, exampleB_metrics])) ! 1) =
     [''className'', ''numberOfChildren'', ''depthOfInheritance'', ''parentClass''] \<and>
   map_of (classesF (formatMetrics (ratios [exampleA_metrics, exampleB_metrics])) ! 1) ''parentClass'' =
     Some (JString ''A'') \<and>
   maxNumberOfChildren (formatMetrics (ratios [exampleA_metrics, exampleB_metrics])) = 1 \<and>
   maxDepthOfInheritance (formatMetrics (ratios [exampleA_metrics, exampleB_metrics])) = 1"
proof -
  let ?r = "ratios [exampleA_metrics, exampleB_metrics]"
  note fm = formatMetrics_projects_classes_and_maxima[of ?r]
  have cs: "classes ?r = [exampleA_metrics, exampleB_metrics]"
    by (simp add: ratios_sums)
  from fm have all: "\<forall>i < length (classes ?r).
      map fst (classesF (formatMetrics ?r) ! i) =
        [''className'', ''numberOfChildren'', ''depthOfInheritance''] @
        (if parentClass (classes ?r ! i) = [] then [] else [''parentClass'']) \<and>
      map_of (classesF (formatMetrics ?r) ! i) ''parentClass'' =
        (if parentClass (classes ?r ! i) = [] then None
         else Some (JString (parentClass (classes ?r ! i))))"
    by blast
  from all[unfolded cs, rule_format, of 0] have a: "map fst (classesF (formatMetrics ?r) ! 0) =
     [''className'', ''numberOfChildren'', ''depthOfInheritance'']"
    by (simp add: exampleA_metrics_def)
  from all[unfolded cs, rule_format, of 1] have b: "map fst (classesF (formatMetrics ?r) ! 1) =
     [''className'', ''numberOfChildren'', ''depthOfInheritance'', ''parentClass'']"
    and c: "map_of (classesF (formatMetrics ?r) ! 1) ''parentClass'' = Some (JString ''A'')"
    by (simp_all add: exampleB_metrics_def)
  from fm have "maxNumberOfChildren (formatMetrics ?r) =
     (if classes ?r = [] then 0 else Max (numberOfChildren ` set (classes ?r)))"
    by blast
  then have d: "maxNumberOfChildren (formatMetrics ?r) = 1"
    unfolding cs by (simp add: exampleA_metrics_def exampleB_metrics_def)
  from fm have "maxDepthOfInheritance (formatMetrics ?r) =
     (if classes ?r = [] then 0 else Max (depthOfInheritance ` set (classes ?r)))"
    by blast
  then have e: "maxDepthOfInheritance (formatMetrics ?r) = 1"
    unfolding cs by (simp add: exampleA_metrics_def exampleB_metrics_def)
  show ?thesis
    by (intro conjI) (rule a b c d e)+
qed

section \<open>The hierarchy resolver\<close>

subsection \<open>The successful runs of \<open>getClassMetrics\<close>\<close>

lemma getClassMetrics_found:
  "registered cs t = Some i \<Longrightarrow> getClassMetrics cs t = Inr (cs, i)"
  by (simp add: getClassMetrics.simps registered_def)

lemma getClassMetrics_root:
  "registered cs t = None \<Longrightarrow> rootType t \<Longrightarrow>
   getClassMetrics cs t =
     (case analyzeProps (newPropertyMetrics Methods) None t of
        Inl e \<Rightarrow> Inl e
      | Inr ms \<Rightarrow>
          (case analyzeProps (newPropertyMetrics Attributes) None t of
             Inl e \<Rightarrow> Inl e
           | Inr ats \<Rightarrow> Inr (cs @ [newEntry t None ms ats], length cs)))"
  by (auto simp: getClassMetrics.simps getParentClassMetrics.simps registered_def rootType_def
      newClassMetrics_def newEntry_def split: sum.splits)

lemma getClassMetrics_child:
  "registered cs t = None \<Longrightarrow> getBaseTypes t = Some [b] \<Longrightarrow>
   getClassMetrics cs t =
     (case getClassMetrics cs b of
        Inl e \<Rightarrow> Inl e
      | Inr (cs1, p) \<Rightarrow>
          (case analyzeProps (newPropertyMetrics Methods) (Some ((cs1[p := addChild (cs1 ! p)]) ! p)) t of
             Inl e \<Rightarrow> Inl e
           | Inr ms \<Rightarrow>
               (case analyzeProps (newPropertyMetrics Attributes) (Some ((cs1[p := addChild (cs1 ! p)]) ! p)) t of
                  Inl e \<Rightarrow> Inl e
                | Inr ats \<Rightarrow>
                    Inr (cs1[p := addChild (cs1 ! p)] @
                           [newEntry t (Some ((cs1[p := addChild (cs1 ! p)]) ! p)) ms ats],
                         length cs1))))"
  by (auto simp: getClassMetrics.simps[of cs t] getParentClassMetrics.simps[of cs t] registered_def
      newClassMetrics_def newEntry_def addChild_def Let_def split: sum.splits)

lemma getClassMetrics_multiple:
  "registered cs t = None \<Longrightarrow> getBaseTypes t = Some bs \<Longrightarrow> 2 \<le> length bs \<Longrightarrow>
   getClassMetrics cs t = Inl (UnexpectedBaseClassesNumber (length bs))"
  by (cases bs rule: list.exhaust[case_product list.exhaust])
     (auto simp: getClassMetrics.simps[of cs t] getParentClassMetrics.simps[of cs t] registered_def
      split: list.splits)

lemma findIndex_Some:
  "findIndex P xs = Some i \<Longrightarrow> i < length xs \<and> P (xs ! i) \<and> (\<forall>j<i. \<not> P (xs ! j))"
proof (induction xs arbitrary: i)
  case Nil
  then show ?case by simp
next
  case (Cons x xs)
  show ?case
  proof (cases "P x")
    case True
    with Cons.prems show ?thesis by simp
  next
    case False
    with Cons.prems obtain k where k: "findIndex P xs = Some k" "i = Suc k"
      by auto
    from Cons.IH[OF k(1)] False k(2) show ?thesis
      by (auto simp: nth_Cons split: nat.splits)
  qed
qed

lemma findIndex_None: "findIndex P xs = None \<longleftrightarrow> (\<forall>x\<in>set xs. \<not> P x)"
  by (induction xs) auto

lemma findIndex_append_Some:
  "findIndex P xs = Some i \<Longrightarrow> findIndex P (xs @ ys) = Some i"
  by (induction xs arbitrary: i) (auto split: if_splits)

lemma findIndex_snoc_None:
  "findIndex P xs = None \<Longrightarrow>
   findIndex P (xs @ [y]) = (if P y then Some (length xs) else None)"
  by (induction xs) (auto split: if_splits)

lemma findIndex_cong:
  "map P xs = map Q ys \<Longrightarrow> findIndex P xs = findIndex Q ys"
proof (induction xs arbitrary: ys)
  case Nil
  then show ?case by simp
next
  case (Cons x xs)
  then obtain y ys' where "ys = y # ys'" by (cases ys) auto
  with Cons show ?case by auto
qed

lemma getClassMetrics_cases [consumes 1, case_names found root child]:
  assumes run: "getClassMetrics cs t = Inr (cs', i)"
  obtains
    (found) "registered cs t = Some i" "cs' = cs"
  | (root) ms ats where "registered cs t = None" "rootType t"
      "analyzeProps (newPropertyMetrics Methods) None t = Inr ms"
      "analyzeProps (newPropertyMetrics Attributes) None t = Inr ats"
      "cs' = cs @ [newEntry t None ms ats]" "i = length cs"
  | (child) b cs1 p ms ats where "registered cs t = None" "getBaseTypes t = Some [b]"
      "getClassMetrics cs b = Inr (cs1, p)"
      "analyzeProps (newPropertyMetrics Methods) (Some ((cs1[p := addChild (cs1 ! p)]) ! p)) t = Inr ms"
      "analyzeProps (newPropertyMetrics Attributes) (Some ((cs1[p := addChild (cs1 ! p)]) ! p)) t = Inr ats"
      "cs' = cs1[p := addChild (cs1 ! p)] @ [newEntry t (Some ((cs1[p := addChild (cs1 ! p)]) ! p)) ms ats]"
      "i = length cs1"
proof (cases "registered cs t")
  case (Some k)
  have "getClassMetrics cs t = Inr (cs, k)"
    using Some by (rule getClassMetrics_found)
  with run have "cs' = cs" "k = i" by simp_all
  with Some show ?thesis by (intro found) simp_all
next
  case None
  show ?thesis
  proof (cases "getBaseTypes t")
    case none: None
    then have r: "rootType t" by (simp add: rootType_def)
    from run getClassMetrics_root[OF None r] obtain ms ats where
      "analyzeProps (newPropertyMetrics Methods) None t = Inr ms"
      "analyzeProps (newPropertyMetrics Attributes) None t = Inr ats"
      "cs' = cs @ [newEntry t None ms ats]" "i = length cs"
      by (auto split: sum.splits)
    then show ?thesis by (rule root[OF None r])
  next
    case (Some bs)
    show ?thesis
    proof (cases bs)
      case Nil
      with Some have r: "rootType t" by (simp add: rootType_def)
      from run getClassMetrics_root[OF None r] obtain ms ats where
        "analyzeProps (newPropertyMetrics Methods) None t = Inr ms"
        "analyzeProps (newPropertyMetrics Attributes) None t = Inr ats"
        "cs' = cs @ [newEntry t None ms ats]" "i = length cs"
        by (auto split: sum.splits)
      then show ?thesis by (rule root[OF None r])
    next
      case (Cons b bs')
      show ?thesis
      proof (cases bs')
        case Nil
        with Cons Some have b: "getBaseTypes t = Some [b]" by simp
        from run getClassMetrics_child[OF None b] obtain cs1 p ms ats where
          "getClassMetrics cs b = Inr (cs1, p)"
          "analyzeProps (newPropertyMetrics Methods) (Some ((cs1[p := addChild (cs1 ! p)]) ! p)) t = Inr ms"
          "analyzeProps (newPropertyMetrics Attributes) (Some ((cs1[p := addChild (cs1 ! p)]) ! p)) t = Inr ats"
          "cs' = cs1[p := addChild (cs1 ! p)] @ [newEntry t (Some ((cs1[p := addChild (cs1 ! p)]) ! p)) ms ats]"
          "i = length cs1"
          by (auto split: sum.splits prod.splits)
        then show ?thesis by (rule child[OF None b])
      next
        case (Cons b2 bs'')
        with \<open>bs = b # bs'\<close> have "2 \<le> length bs" by simp
        from getClassMetrics_multiple[OF None Some this] run show ?thesis by simp
      qed
    qed
  qed
qed

lemma getClassMetrics_index:
  "getClassMetrics cs t = Inr (cs', i) \<Longrightarrow> i < length cs'"
proof (induction t arbitrary: cs cs' i rule: measure_induct_rule[where f = size])
  case (less t)
  from less.prems show ?case
  proof (cases rule: getClassMetrics_cases)
    case found
    then show ?thesis by (auto simp: registered_def dest: findIndex_Some)
  next
    case (root ms ats)
    then show ?thesis by simp
  next
    case (child b cs1 p ms ats)
    then show ?thesis by simp
  qed
qed

lemma size_single_base: "getBaseTypes t = Some [b] \<Longrightarrow> size b < size t"
  by (cases t) simp

text \<open>Induction over the successful runs of \<open>getClassMetrics\<close>.\<close>

lemma getClassMetrics_induct [consumes 1, case_names found root child]:
  assumes run: "getClassMetrics cs t = Inr (cs', i)"
    and found: "\<And>cs t i. registered cs t = Some i \<Longrightarrow> P cs t cs i"
    and root: "\<And>cs t ms ats. registered cs t = None \<Longrightarrow> rootType t \<Longrightarrow>
        analyzeProps (newPropertyMetrics Methods) None t = Inr ms \<Longrightarrow>
        analyzeProps (newPropertyMetrics Attributes) None t = Inr ats \<Longrightarrow>
        P cs t (cs @ [newEntry t None ms ats]) (length cs)"
    and child: "\<And>cs t b cs1 p ms ats. registered cs t = None \<Longrightarrow> getBaseTypes t = Some [b] \<Longrightarrow>
        getClassMetrics cs b = Inr (cs1, p) \<Longrightarrow> p < length cs1 \<Longrightarrow> P cs b cs1 p \<Longrightarrow>
        analyzeProps (newPropertyMetrics Methods) (Some (addChild (cs1 ! p))) t = Inr ms \<Longrightarrow>
        analyzeProps (newPropertyMetrics Attributes) (Some (addChild (cs1 ! p))) t = Inr ats \<Longrightarrow>
        P cs t (cs1[p := addChild (cs1 ! p)] @ [newEntry t (Some (addChild (cs1 ! p))) ms ats])
          (length cs1)"
  shows "P cs t cs' i"
  using run
proof (induction t arbitrary: cs cs' i rule: measure_induct_rule[where f = size])
  case (less t)
  from less.prems show ?case
  proof (cases rule: getClassMetrics_cases)
    case found: found
    with assms(2) show ?thesis by simp
  next
    case r: (root ms ats)
    with root show ?thesis by simp
  next
    case c: (child b cs1 p ms ats)
    have p: "p < length cs1" using c(3) by (rule getClassMetrics_index)
    then have nth: "(cs1[p := addChild (cs1 ! p)]) ! p = addChild (cs1 ! p)" by simp
    have ih: "P cs b cs1 p"
      using less.IH[OF size_single_base[OF c(2)] c(3)] .
    from child[OF c(1,2,3) p ih c(4,5)[unfolded nth]] c(6,7) nth show ?thesis by simp
  qed
qed

subsection \<open>Identities\<close>

lemma ancestors_single: "getBaseTypes t = Some [b] \<Longrightarrow> ancestors t = b # ancestors b"
  by (cases t) simp

lemma ancestors_root: "rootType t \<Longrightarrow> ancestors t = []"
  by (cases t) (auto simp: rootType_def)

lemma size_ancestors: "a \<in> set (ancestors t) \<Longrightarrow> size a < size t"
proof (induction t arbitrary: a rule: ancestors.induct)
  case (1 n ds bs ps)
  then obtain bl b where bs: "bs = Some bl" and b: "b \<in> set bl" and a: "a = b \<or> a \<in> set (ancestors b)"
    by (auto split: option.splits)
  have "size b < size (TsType n ds bs ps)"
    using bs b by (auto simp: less_Suc_eq_le dest!: size_list_estimation'[where f = size and y = "size b"])
  moreover have "size a \<le> size b"
    using a "1.IH"[OF bs b, of a] by (auto simp: less_imp_le)
  ultimately show ?case by simp
qed

lemma depthOf_single: "getBaseTypes t = Some [b] \<Longrightarrow> depthOf t = 1 + depthOf b"
  by (cases t) simp

lemma depthOf_root: "rootType t \<Longrightarrow> depthOf t = 0"
  by (cases t) (auto simp: rootType_def)

lemma registered_Some:
  "registered cs t = Some i \<Longrightarrow> i < length cs \<and> identityOfClass (cs ! i) = identityOf t"
  by (auto simp: registered_def identityOf_def identityOfClass_def dest: findIndex_Some)

lemma registered_None:
  "registered cs t = None \<longleftrightarrow> identityOf t \<notin> identityOfClass ` set cs"
  unfolding registered_def identityOf_def identityOfClass_def findIndex_None image_iff
  by (metis prod.inject)

lemma registered_cong:
  "map identityOfClass cs = map identityOfClass cs' \<Longrightarrow> registered cs t = registered cs' t"
  unfolding registered_def
  by (rule findIndex_cong) (auto simp: identityOfClass_def list_eq_iff_nth_eq)

lemma identityOfClass_addChild [simp]: "identityOfClass (addChild c) = identityOfClass c"
  by (simp add: identityOfClass_def addChild_def)

lemma identityOfClass_newEntry [simp]: "identityOfClass (newEntry t po ms ats) = identityOf t"
  by (simp add: identityOfClass_def newEntry_def identityOf_def)

lemma map_identity_update:
  "map identityOfClass (cs[p := addChild (cs ! p)]) = map identityOfClass cs"
  by (cases "p < length cs") (auto simp: list_eq_iff_nth_eq nth_list_update)

lemma registered_snoc:
  "registered cs t = None \<Longrightarrow> identityOfClass e = identityOf t \<Longrightarrow>
   registered (cs @ [e]) t = Some (length cs)"
  by (auto simp: registered_def findIndex_snoc_None identityOf_def identityOfClass_def)

text \<open>The identities a run of \<open>getClassMetrics\<close> adds are those of the type and its ancestors.\<close>

lemma getClassMetrics_identities:
  "getClassMetrics cs t = Inr (cs', i) \<Longrightarrow>
   \<exists>new. map identityOfClass cs' = map identityOfClass cs @ new \<and>
         set new \<subseteq> identityOf ` set (t # ancestors t)"
proof (induction rule: getClassMetrics_induct)
  case (found cs t i)
  then show ?case by simp
next
  case (root cs t ms ats)
  then show ?case by simp
next
  case (child cs t b cs1 p ms ats)
  from child.IH obtain new where new: "map identityOfClass cs1 = map identityOfClass cs @ new"
    "set new \<subseteq> identityOf ` set (b # ancestors b)" by blast
  have "map identityOfClass (cs1[p := addChild (cs1 ! p)] @ [newEntry t (Some (addChild (cs1 ! p))) ms ats])
      = map identityOfClass cs @ (new @ [identityOf t])"
    using new(1) by (simp add: map_identity_update)
  moreover have "set (new @ [identityOf t]) \<subseteq> identityOf ` set (t # ancestors t)"
    using new(2) ancestors_single[OF child.hyps(2)] by auto
  ultimately show ?case by blast
qed

lemma resolve_again_same_reference:
  "consistent (t # ancestors t) \<Longrightarrow> getClassMetrics cs t = Inr (cs', i) \<Longrightarrow>
   getClassMetrics cs' t = Inr (cs', i)"
proof -
  assume cons: "consistent (t # ancestors t)" and run: "getClassMetrics cs t = Inr (cs', i)"
  from run have "registered cs' t = Some i"
  proof (cases rule: getClassMetrics_cases)
    case found
    then show ?thesis by simp
  next
    case (root ms ats)
    then show ?thesis by (simp add: registered_snoc)
  next
    case (child b cs1 p ms ats)
    from getClassMetrics_identities[OF child(3)] obtain new
      where new: "map identityOfClass cs1 = map identityOfClass cs @ new"
        "set new \<subseteq> identityOf ` set (b # ancestors b)" by blast
    have anc: "ancestors t = b # ancestors b"
      using child(2) by (rule ancestors_single)
    have "identityOf t \<notin> identityOf ` set (b # ancestors b)"
    proof
      assume "identityOf t \<in> identityOf ` set (b # ancestors b)"
      then obtain a where a: "a \<in> set (ancestors t)" "identityOf t = identityOf a"
        unfolding anc by auto
      with cons have "t = a" by (auto simp: consistent_def)
      with size_ancestors[OF a(1)] show False by simp
    qed
    moreover have "identityOf t \<notin> identityOfClass ` set cs"
      using child(1) by (simp add: registered_None)
    ultimately have "identityOf t \<notin> set (map identityOfClass cs1)"
      unfolding new(1) using new(2) by auto
    then have "registered (cs1[p := addChild (cs1 ! p)]) t = None"
      unfolding registered_None by (metis map_identity_update set_map)
    then show ?thesis
      unfolding child(6,7) by (simp add: registered_snoc)
  qed
  then show ?thesis by (rule getClassMetrics_found)
qed

lemma getClassMetrics_identity:
  assumes "getClassMetrics cs t = Inr (cs', i)"
  shows "i < length cs' \<and> identityOfClass (cs' ! i) = identityOf t"
  using assms
proof (cases rule: getClassMetrics_cases)
  case found
  with registered_Some[of cs t i] show ?thesis by simp
next
  case (root ms ats)
  then show ?thesis by simp
next
  case (child b cs1 p ms ats)
  then show ?thesis by (simp add: nth_append)
qed

lemma resolve_again_no_effect:
  assumes "getClassMetrics cs t = Inr (cs', i)"
  shows "\<exists>j. getClassMetrics cs' t = Inr (cs', j) \<and> j < length cs' \<and>
             identityOfClass (cs' ! j) = identityOf t"
proof -
  from getClassMetrics_identity[OF assms] have "identityOf t \<in> identityOfClass ` set cs'"
    by (metis image_eqI nth_mem)
  then obtain j where j: "registered cs' t = Some j"
    using registered_None[of cs' t] by auto
  from getClassMetrics_found[OF j] registered_Some[OF j] show ?thesis by blast
qed

text \<open>
  C2: when resolving a class succeeds, resolving it again in the registry that results
  succeeds and leaves the registry as it is: no entry is added and no
  \<open>numberOfChildren\<close> changes; the object it returns has the identity of the class. When
  the class and its ancestors are determined by their identities, it is the object the
  first resolution returned.
\<close>

theorem resolve_is_idempotent:
  assumes "getClassMetrics cs t = Inr (cs', i)"
  shows "(\<exists>j. getClassMetrics cs' t = Inr (cs', j) \<and> j < length cs' \<and>
              identityOfClass (cs' ! j) = identityOf t) \<and>
         (consistent (t # ancestors t) \<longrightarrow> getClassMetrics cs' t = Inr (cs', i))"
  using resolve_again_no_effect[OF assms] resolve_again_same_reference[OF _ assms]
  by blast

lemma example_consistent: "consistent (exampleB # ancestors exampleB)"
  by code_simp

lemma example_resolve_B:
  "getClassMetrics [] exampleB = Inr ([exampleA_metrics, exampleB_metrics], 1)"
  by code_simp

theorem resolve_is_idempotent_witness:
  "consistent (exampleB # ancestors exampleB) \<and>
   getClassMetrics [] exampleB = Inr ([exampleA_metrics, exampleB_metrics], 1) \<and>
   getClassMetrics [exampleA_metrics, exampleB_metrics] exampleB =
     Inr ([exampleA_metrics, exampleB_metrics], 1)"
  using resolve_is_idempotent[OF example_resolve_B]
    example_consistent example_resolve_B
  by blast

subsection \<open>The registry represents the types resolved so far\<close>

lemma matches_nth:
  "matches ts cs \<longleftrightarrow>
     length cs = length ts \<and>
     (\<forall>j<length ts.
        identityOfClass (cs ! j) = identityOf (ts ! j) \<and>
        depthOfInheritance (cs ! j) = depthOf (ts ! j) \<and>
        parentClass (cs ! j) = parentNameOf (ts ! j) \<and>
        numberOfChildren (cs ! j) = length (childrenIn ts (ts ! j)))"
  unfolding matches_def list_eq_iff_nth_eq by auto

lemma matches_length: "matches ts cs \<Longrightarrow> length cs = length ts"
  by (simp add: matches_nth)

lemma matches_identities: "matches ts cs \<Longrightarrow> identityOfClass ` set cs = identityOf ` set ts"
  unfolding matches_def by (metis set_map)

lemma no_child_of_unlisted:
  assumes "parentsFirst ts" and "t \<notin> set ts" and "d \<in> set ts"
  shows "getBaseTypes d \<noteq> Some [t]"
proof
  assume b: "getBaseTypes d = Some [t]"
  from \<open>d \<in> set ts\<close> obtain j where j: "j < length ts" "ts ! j = d"
    by (auto simp: in_set_conv_nth)
  from b j have "\<not> rootType (ts ! j)" by (simp add: rootType_def)
  with assms(1) j(1) obtain k where "k < j" "getBaseTypes (ts ! j) = Some [ts ! k]"
    unfolding parentsFirst_def by blast
  with b j have "t = ts ! k" "k < length ts" by simp_all
  with assms(2) show False by simp
qed

lemma childrenIn_snoc:
  "childrenIn (ts @ [t]) x = childrenIn ts x @ (if getBaseTypes t = Some [x] then [t] else [])"
  by (simp add: childrenIn_def)

lemma childrenIn_empty:
  "parentsFirst ts \<Longrightarrow> t \<notin> set ts \<Longrightarrow> childrenIn ts t = []"
  unfolding childrenIn_def by (auto simp: filter_empty_conv dest: no_child_of_unlisted)

lemma size_not_self_base: "getBaseTypes t \<noteq> Some [t]"
  using size_single_base[of t t] by auto

lemma matches_snoc_root:
  assumes m: "matches ts cs" and pf: "parentsFirst ts" and nin: "t \<notin> set ts"
    and r: "rootType t"
    and e: "identityOfClass e = identityOf t" "depthOfInheritance e = 0" "parentClass e = []"
      "numberOfChildren e = 0"
  shows "matches (ts @ [t]) (cs @ [e])"
proof -
  have len: "length cs = length ts" using m by (rule matches_length)
  note mn = m[unfolded matches_nth]
  have rt: "\<And>x. getBaseTypes t \<noteq> Some [x]" using r by (auto simp: rootType_def)
  have pn: "parentNameOf t = []" using r by (auto simp: parentNameOf_def rootType_def)
  have ch: "\<And>x. childrenIn (ts @ [t]) x = childrenIn ts x"
    by (simp add: childrenIn_snoc rt)
  have "identityOfClass ((cs @ [e]) ! j) = identityOf ((ts @ [t]) ! j) \<and>
        depthOfInheritance ((cs @ [e]) ! j) = depthOf ((ts @ [t]) ! j) \<and>
        parentClass ((cs @ [e]) ! j) = parentNameOf ((ts @ [t]) ! j) \<and>
        numberOfChildren ((cs @ [e]) ! j) = length (childrenIn (ts @ [t]) ((ts @ [t]) ! j))"
    if "j < length (ts @ [t])" for j
  proof (cases "j < length ts")
    case True
    with mn len show ?thesis
      by (simp add: nth_append ch)
  next
    case False
    with that have "j = length ts" by simp
    with len e show ?thesis
      by (simp add: nth_append ch depthOf_root[OF r] pn childrenIn_empty[OF pf nin])
  qed
  with len show ?thesis
    unfolding matches_nth by simp
qed

lemma matches_snoc_child:
  assumes m: "matches ts cs" and pf: "parentsFirst ts" and nin: "t \<notin> set ts"
    and d: "distinct ts"
    and p: "p < length ts" and b: "getBaseTypes t = Some [ts ! p]"
    and e: "identityOfClass e = identityOf t"
      "depthOfInheritance e = 1 + depthOfInheritance (cs ! p)"
      "parentClass e = className (cs ! p)" "numberOfChildren e = 0"
  shows "matches (ts @ [t]) (cs[p := addChild (cs ! p)] @ [e])"
proof -
  have len: "length cs = length ts" using m by (rule matches_length)
  note mn = m[unfolded matches_nth]
  have "identityOfClass (cs ! p) = identityOf (ts ! p)"
    using mn p by simp
  then have pn: "parentNameOf t = className (cs ! p)"
    using b by (simp add: parentNameOf_def identityOfClass_def identityOf_def)
  have dp: "depthOf t = 1 + depthOfInheritance (cs ! p)"
    using depthOf_single[OF b] mn p by simp
  have ch: "childrenIn (ts @ [t]) (ts ! j) = childrenIn ts (ts ! j) @ (if j = p then [t] else [])"
    if "j < length ts" for j
    using b p d that by (auto simp: childrenIn_snoc nth_eq_iff_index_eq)
  have cht: "childrenIn (ts @ [t]) t = []"
    using childrenIn_empty[OF pf nin] size_not_self_base[of t] by (simp add: childrenIn_snoc)
  let ?cs = "cs[p := addChild (cs ! p)] @ [e]"
  have "identityOfClass (?cs ! j) = identityOf ((ts @ [t]) ! j) \<and>
        depthOfInheritance (?cs ! j) = depthOf ((ts @ [t]) ! j) \<and>
        parentClass (?cs ! j) = parentNameOf ((ts @ [t]) ! j) \<and>
        numberOfChildren (?cs ! j) = length (childrenIn (ts @ [t]) ((ts @ [t]) ! j))"
    if "j < length (ts @ [t])" for j
  proof (cases "j < length ts")
    case True
    show ?thesis
    proof (cases "j = p")
      case True
      with mn len p show ?thesis
        by (simp add: nth_append ch addChild_def identityOfClass_def)
    next
      case False
      with mn len p \<open>j < length ts\<close> show ?thesis
        by (simp add: nth_append ch)
    qed
  next
    case False
    with that have "j = length ts" by simp
    with len e show ?thesis
      by (simp add: nth_append cht pn dp)
  qed
  moreover have "length ?cs = length (ts @ [t])" using len by simp
  ultimately show ?thesis
    unfolding matches_nth by blast
qed

lemma parentsFirst_snoc_root:
  assumes "parentsFirst ts" and "rootType t"
  shows "parentsFirst (ts @ [t])"
  unfolding parentsFirst_def
proof (intro allI impI)
  fix j assume j: "j < length (ts @ [t])"
  show "rootType ((ts @ [t]) ! j) \<or> (\<exists>k<j. getBaseTypes ((ts @ [t]) ! j) = Some [(ts @ [t]) ! k])"
  proof (cases "j < length ts")
    case True
    with assms(1) consider "rootType (ts ! j)" | k where "k < j" "getBaseTypes (ts ! j) = Some [ts ! k]"
      unfolding parentsFirst_def by blast
    then show ?thesis
    proof cases
      case 1
      with True show ?thesis by (simp add: nth_append)
    next
      case 2
      with True have "getBaseTypes ((ts @ [t]) ! j) = Some [(ts @ [t]) ! k]"
        by (simp add: nth_append)
      with 2(1) show ?thesis by blast
    qed
  next
    case False
    with j assms(2) show ?thesis by (simp add: nth_append)
  qed
qed

lemma parentsFirst_snoc_child:
  assumes "parentsFirst ts" and "p < length ts" and "getBaseTypes t = Some [ts ! p]"
  shows "parentsFirst (ts @ [t])"
  unfolding parentsFirst_def
proof (intro allI impI)
  fix j assume j: "j < length (ts @ [t])"
  show "rootType ((ts @ [t]) ! j) \<or> (\<exists>k<j. getBaseTypes ((ts @ [t]) ! j) = Some [(ts @ [t]) ! k])"
  proof (cases "j < length ts")
    case True
    with assms(1) consider "rootType (ts ! j)" | k where "k < j" "getBaseTypes (ts ! j) = Some [ts ! k]"
      unfolding parentsFirst_def by blast
    then show ?thesis
    proof cases
      case 1
      with True show ?thesis by (simp add: nth_append)
    next
      case 2
      with True have "getBaseTypes ((ts @ [t]) ! j) = Some [(ts @ [t]) ! k]"
        by (simp add: nth_append)
      with 2(1) show ?thesis by blast
    qed
  next
    case False
    with j have jl: "j = length ts" by simp
    with assms(2,3) have "p < j" "getBaseTypes ((ts @ [t]) ! j) = Some [(ts @ [t]) ! p]"
      by (simp_all add: nth_append)
    then show ?thesis by blast
  qed
qed

lemma newEntry_fields [simp]:
  "depthOfInheritance (newEntry t None ms ats) = 0"
  "parentClass (newEntry t None ms ats) = []"
  "numberOfChildren (newEntry t po ms ats) = 0"
  "depthOfInheritance (newEntry t (Some pc) ms ats) = 1 + depthOfInheritance pc"
  "parentClass (newEntry t (Some pc) ms ats) = className pc"
  "methods (newEntry t po ms ats) = ms"
  "attributes (newEntry t po ms ats) = ats"
  by (simp_all add: newEntry_def)

lemma addChild_fields [simp]:
  "depthOfInheritance (addChild c) = depthOfInheritance c"
  "className (addChild c) = className c"
  "classPath (addChild c) = classPath c"
  "parentClass (addChild c) = parentClass c"
  "numberOfChildren (addChild c) = numberOfChildren c + 1"
  "methods (addChild c) = methods c"
  "attributes (addChild c) = attributes c"
  by (simp_all add: addChild_def)

lemma unregistered_not_listed:
  "matches ts cs \<Longrightarrow> registered cs t = None \<Longrightarrow> t \<notin> set ts"
  by (auto simp: registered_None matches_identities)

text \<open>
  A successful run of \<open>getClassMetrics\<close> keeps the registry a representation of a list of
  types: it appends the unregistered types among the type and its ancestors, parents
  first, and returns the place of the type.
\<close>

lemma getClassMetrics_represents:
  assumes run: "getClassMetrics cs t = Inr (cs', i)" and U: "consistent U"
  shows "set (t # ancestors t) \<subseteq> set U \<Longrightarrow> represents U ts cs \<Longrightarrow>
         \<exists>new. represents U (ts @ new) cs' \<and> set new \<subseteq> set (t # ancestors t) \<and>
               i < length (ts @ new) \<and> (ts @ new) ! i = t"
  using run
proof (induction arbitrary: ts rule: getClassMetrics_induct)
  case (found cs t i)
  from found.prems(2) have m: "matches ts cs" and sub: "set ts \<subseteq> set U"
    by (simp_all add: represents_def)
  from registered_Some[OF found.hyps] have i: "i < length cs"
    and id: "identityOfClass (cs ! i) = identityOf t" by simp_all
  from m i have il: "i < length ts" and "identityOfClass (cs ! i) = identityOf (ts ! i)"
    by (simp_all add: matches_nth)
  with id have "identityOf (ts ! i) = identityOf t" by simp
  moreover have "ts ! i \<in> set U" using il sub by auto
  moreover have "t \<in> set U" using found.prems(1) by simp
  ultimately have "ts ! i = t" using U by (auto simp: consistent_def)
  with il found.prems(2) have "represents U (ts @ []) cs \<and> set [] \<subseteq> set (t # ancestors t) \<and>
               i < length (ts @ []) \<and> (ts @ []) ! i = t" by simp
  then show ?case by blast
next
  case (root cs t ms ats)
  from root.prems(2) have m: "matches ts cs" and sub: "set ts \<subseteq> set U" and d: "distinct ts"
    and pf: "parentsFirst ts"
    by (simp_all add: represents_def)
  have nin: "t \<notin> set ts" using m root.hyps(1) by (rule unregistered_not_listed)
  have "matches (ts @ [t]) (cs @ [newEntry t None ms ats])"
    using m pf nin root.hyps(2) by (rule matches_snoc_root) simp_all
  moreover have "parentsFirst (ts @ [t])"
    using pf root.hyps(2) by (rule parentsFirst_snoc_root)
  ultimately have "represents U (ts @ [t]) (cs @ [newEntry t None ms ats])"
    using d nin sub root.prems(1) by (simp add: represents_def)
  moreover have "length cs = length ts" using m by (rule matches_length)
  ultimately have "represents U (ts @ [t]) (cs @ [newEntry t None ms ats]) \<and>
      set [t] \<subseteq> set (t # ancestors t) \<and> length cs < length (ts @ [t]) \<and> (ts @ [t]) ! length cs = t"
    by simp
  then show ?case by blast
next
  case (child cs t b cs1 p ms ats)
  have anc: "ancestors t = b # ancestors b"
    using child.hyps(2) by (rule ancestors_single)
  from child.prems(1) have subb: "set (b # ancestors b) \<subseteq> set U" and tU: "t \<in> set U"
    unfolding anc by auto
  from child.IH[OF subb child.prems(2)] obtain new1 where
    rep1: "represents U (ts @ new1) cs1" and new1: "set new1 \<subseteq> set (b # ancestors b)"
    and p: "p < length (ts @ new1)" "(ts @ new1) ! p = b" by blast
  let ?ts1 = "ts @ new1"
  from rep1 have m1: "matches ?ts1 cs1" and sub1: "set ?ts1 \<subseteq> set U" and d1: "distinct ?ts1"
    and pf1: "parentsFirst ?ts1"
    by (simp_all add: represents_def)
  from child.prems(2) have m: "matches ts cs" by (simp add: represents_def)
  have "t \<notin> set ts" using m child.hyps(1) by (rule unregistered_not_listed)
  moreover have "t \<notin> set new1"
  proof
    assume "t \<in> set new1"
    with new1 have "t \<in> set (ancestors t)" unfolding anc by auto
    from size_ancestors[OF this] show False by simp
  qed
  ultimately have nin: "t \<notin> set ?ts1" by simp
  have b: "getBaseTypes t = Some [?ts1 ! p]" using child.hyps(2) p(2) by simp
  let ?e = "newEntry t (Some (addChild (cs1 ! p))) ms ats"
  have "matches (?ts1 @ [t]) (cs1[p := addChild (cs1 ! p)] @ [?e])"
    using m1 pf1 nin d1 p(1) b by (rule matches_snoc_child) simp_all
  moreover have "parentsFirst (?ts1 @ [t])"
    using pf1 p(1) b by (rule parentsFirst_snoc_child)
  ultimately have rep: "represents U (ts @ (new1 @ [t])) (cs1[p := addChild (cs1 ! p)] @ [?e])"
    using d1 nin sub1 tU by (simp add: represents_def)
  have len: "length cs1 = length ?ts1" using m1 by (rule matches_length)
  have "set (new1 @ [t]) \<subseteq> set (t # ancestors t)"
    using new1 unfolding anc by auto
  moreover have "length cs1 < length (ts @ (new1 @ [t]))" "(ts @ (new1 @ [t])) ! length cs1 = t"
    using len by (simp_all add: nth_append)
  ultimately show ?case using rep by blast
qed

subsection \<open>The traversal\<close>

lemma resolveAll_append:
  "resolveAll cs (ts @ us) =
     (case resolveAll cs ts of Inl e \<Rightarrow> Inl e | Inr cs1 \<Rightarrow> resolveAll cs1 us)"
  by (induction ts arbitrary: cs) (auto split: sum.splits)

lemma analyze_traversal:
  "analyzeClass cs n = resolveAll cs (classTypesOf n)"
  "analyzeNodes cs ns = resolveAll cs (classTypesOfNodes ns)"
  by (induction cs n and cs ns rule: analyzeClass_analyzeNodes.induct)
     (auto simp: resolveAll_append split: sum.splits option.splits)

lemma withAncestors_simps [simp]:
  "withAncestors [] = []"
  "withAncestors (t # ts) = t # ancestors t @ withAncestors ts"
  by (simp_all add: withAncestors_def)

lemma resolveAll_represents:
  assumes U: "consistent U"
  shows "resolveAll cs tys = Inr cs' \<Longrightarrow> set (withAncestors tys) \<subseteq> set U \<Longrightarrow>
         represents U ts cs \<Longrightarrow>
         \<exists>new. represents U (ts @ new) cs' \<and> set new \<subseteq> set (withAncestors tys) \<and>
               set tys \<subseteq> set (ts @ new)"
proof (induction tys arbitrary: cs ts)
  case Nil
  then have "represents U (ts @ []) cs' \<and> set [] \<subseteq> set (withAncestors []) \<and> set [] \<subseteq> set (ts @ [])"
    by simp
  then show ?case by blast
next
  case (Cons t tys)
  from Cons.prems(1) obtain cs1 i where run: "getClassMetrics cs t = Inr (cs1, i)"
    and rest: "resolveAll cs1 tys = Inr cs'"
    by (auto split: sum.splits)
  from Cons.prems(2) have sub: "set (t # ancestors t) \<subseteq> set U" "set (withAncestors tys) \<subseteq> set U"
    by auto
  from getClassMetrics_represents[OF run U sub(1) Cons.prems(3)] obtain new1 where
    rep1: "represents U (ts @ new1) cs1" and new1: "set new1 \<subseteq> set (t # ancestors t)"
    and i: "i < length (ts @ new1)" "(ts @ new1) ! i = t" by blast
  from Cons.IH[OF rest sub(2) rep1] obtain new2 where
    rep2: "represents U ((ts @ new1) @ new2) cs'" and new2: "set new2 \<subseteq> set (withAncestors tys)"
    and tys: "set tys \<subseteq> set ((ts @ new1) @ new2)" by blast
  have "t \<in> set (ts @ new1)" using i by (metis nth_mem)
  with tys have "set (t # tys) \<subseteq> set (ts @ (new1 @ new2))" by auto
  moreover have "set (new1 @ new2) \<subseteq> set (withAncestors (t # tys))"
    using new1 new2 by auto
  moreover have "represents U (ts @ (new1 @ new2)) cs'" using rep2 by simp
  ultimately show ?case by blast
qed

lemma parentsFirst_ancestors:
  "parentsFirst ts \<Longrightarrow> t \<in> set ts \<Longrightarrow> set (ancestors t) \<subseteq> set ts"
proof (induction t rule: measure_induct_rule[where f = size])
  case (less t)
  from less.prems(2) obtain j where j: "j < length ts" "ts ! j = t"
    by (auto simp: in_set_conv_nth)
  with less.prems(1) consider "rootType t" | k where "k < j" "getBaseTypes t = Some [ts ! k]"
    unfolding parentsFirst_def by blast
  then show ?case
  proof cases
    case 1
    then show ?thesis by (simp add: ancestors_root)
  next
    case 2
    let ?b = "ts ! k"
    have b: "?b \<in> set ts" using 2(1) j(1) by simp
    have "set (ancestors ?b) \<subseteq> set ts"
      using less.IH[OF size_single_base[OF 2(2)] less.prems(1) b] .
    with b show ?thesis by (simp add: ancestors_single[OF 2(2)])
  qed
qed

lemma represents_Nil: "represents U [] []"
  by (simp add: represents_def matches_def parentsFirst_def)

text \<open>After a successful traversal the registry represents the types of the program.\<close>

lemma traversal_represents_universe:
  assumes "consistent (universe nodes)" and "analyzeNodes [] nodes = Inr cs"
  shows "\<exists>ts. represents (universe nodes) ts cs \<and> set ts = set (universe nodes)"
proof -
  from assms(2) have run: "resolveAll [] (classTypesOfNodes nodes) = Inr cs"
    by (simp add: analyze_traversal)
  from resolveAll_represents[OF assms(1) run _ represents_Nil] obtain ts where
    rep: "represents (universe nodes) ts cs" and tys: "set (classTypesOfNodes nodes) \<subseteq> set ts"
    by (auto simp: universe_def)
  from rep have pf: "parentsFirst ts" and sub: "set ts \<subseteq> set (universe nodes)"
    by (simp_all add: represents_def)
  have "set (universe nodes) \<subseteq> set ts"
    using tys parentsFirst_ancestors[OF pf] by (auto simp: universe_def withAncestors_def)
  with sub rep show ?thesis by blast
qed

lemma represents_registered:
  assumes rep: "represents U ts cs" and U: "consistent U" and j: "j < length ts"
  shows "registered cs (ts ! j) = Some j"
proof -
  from rep have m: "matches ts cs" and d: "distinct ts" and sub: "set ts \<subseteq> set U"
    by (simp_all add: represents_def)
  have "identityOf (ts ! j) \<in> identityOfClass ` set cs"
    using j by (simp add: matches_identities[OF m])
  then obtain i where r: "registered cs (ts ! j) = Some i"
    using registered_None[of cs "ts ! j"] by auto
  from registered_Some[OF r] have i0: "i < length cs" "identityOfClass (cs ! i) = identityOf (ts ! j)"
    by simp_all
  from i0(1) m have il: "i < length ts" by (simp add: matches_length)
  with m have "identityOfClass (cs ! i) = identityOf (ts ! i)" by (simp add: matches_nth)
  with i0(2) il have i: "i < length ts" "identityOf (ts ! i) = identityOf (ts ! j)"
    by simp_all
  with sub j U have "ts ! i = ts ! j"
    unfolding consistent_def by (meson nth_mem subsetD)
  with d i(1) j have "i = j" by (simp add: nth_eq_iff_index_eq)
  with r show ?thesis by simp
qed

subsection \<open>Parents are listed first\<close>

lemma parentsListed_addChild:
  assumes "parentsListed cs"
  shows "parentsListed (cs[p := addChild (cs ! p)])"
proof -
  let ?cs = "cs[p := addChild (cs ! p)]"
  have same: "depthOfInheritance (?cs ! j) = depthOfInheritance (cs ! j) \<and>
      parentClass (?cs ! j) = parentClass (cs ! j) \<and> className (?cs ! j) = className (cs ! j)"
    if "j < length cs" for j
    using that by (cases "j = p") simp_all
  show ?thesis
    unfolding parentsListed_def
  proof (intro allI impI)
    fix i assume "i < length ?cs"
    then have i: "i < length cs" by simp
    from assms i consider "depthOfInheritance (cs ! i) = 0 \<and> parentClass (cs ! i) = []"
      | k where "k < i" "depthOfInheritance (cs ! i) = 1 + depthOfInheritance (cs ! k)"
          "parentClass (cs ! i) = className (cs ! k)"
      unfolding parentsListed_def by blast
    then show "(depthOfInheritance (?cs ! i) = 0 \<and> parentClass (?cs ! i) = []) \<or>
        (\<exists>k<i. depthOfInheritance (?cs ! i) = 1 + depthOfInheritance (?cs ! k) \<and>
               parentClass (?cs ! i) = className (?cs ! k))"
    proof cases
      case 1
      with same[OF i] show ?thesis by simp
    next
      case 2
      from 2(1) i have "k < length cs" by simp
      with same[OF i] same[OF this] 2 show ?thesis by auto
    qed
  qed
qed

lemma parentsListed_snoc:
  assumes "parentsListed cs"
    and "(depthOfInheritance e = 0 \<and> parentClass e = []) \<or>
         (\<exists>k<length cs. depthOfInheritance e = 1 + depthOfInheritance (cs ! k) \<and>
               parentClass e = className (cs ! k))"
  shows "parentsListed (cs @ [e])"
  unfolding parentsListed_def
proof (intro allI impI)
  fix i assume "i < length (cs @ [e])"
  then consider "i < length cs" | "i = length cs" by fastforce
  then show "(depthOfInheritance ((cs @ [e]) ! i) = 0 \<and> parentClass ((cs @ [e]) ! i) = []) \<or>
        (\<exists>k<i. depthOfInheritance ((cs @ [e]) ! i) = 1 + depthOfInheritance ((cs @ [e]) ! k) \<and>
               parentClass ((cs @ [e]) ! i) = className ((cs @ [e]) ! k))"
  proof cases
    case 1
    with assms(1) consider "depthOfInheritance (cs ! i) = 0 \<and> parentClass (cs ! i) = []"
      | k where "k < i" "depthOfInheritance (cs ! i) = 1 + depthOfInheritance (cs ! k)"
          "parentClass (cs ! i) = className (cs ! k)"
      unfolding parentsListed_def by blast
    then show ?thesis
    proof cases
      case 1
      with \<open>i < length cs\<close> show ?thesis by (simp add: nth_append)
    next
      case 2
      with \<open>i < length cs\<close> have "depthOfInheritance ((cs @ [e]) ! i) =
          1 + depthOfInheritance ((cs @ [e]) ! k) \<and>
          parentClass ((cs @ [e]) ! i) = className ((cs @ [e]) ! k)"
        by (simp add: nth_append)
      with 2(1) show ?thesis by blast
    qed
  next
    case 2
    from assms(2) show ?thesis
    proof
      assume "depthOfInheritance e = 0 \<and> parentClass e = []"
      with 2 show ?thesis by simp
    next
      assume "\<exists>k<length cs. depthOfInheritance e = 1 + depthOfInheritance (cs ! k) \<and>
               parentClass e = className (cs ! k)"
      then obtain k where "k < length cs" "depthOfInheritance e = 1 + depthOfInheritance (cs ! k)"
        "parentClass e = className (cs ! k)" by blast
      with 2 have "k < i" "depthOfInheritance ((cs @ [e]) ! i) =
          1 + depthOfInheritance ((cs @ [e]) ! k) \<and>
          parentClass ((cs @ [e]) ! i) = className ((cs @ [e]) ! k)"
        by (simp_all add: nth_append)
      then show ?thesis by blast
    qed
  qed
qed

lemma getClassMetrics_parentsListed:
  "getClassMetrics cs t = Inr (cs', i) \<Longrightarrow> parentsListed cs \<Longrightarrow> parentsListed cs'"
proof (induction rule: getClassMetrics_induct)
  case (found cs t i)
  then show ?case by simp
next
  case (root cs t ms ats)
  then show ?case by (intro parentsListed_snoc) simp_all
next
  case (child cs t b cs1 p ms ats)
  let ?cs = "cs1[p := addChild (cs1 ! p)]"
  have "parentsListed ?cs"
    using child.IH child.prems by (intro parentsListed_addChild) simp
  moreover have "p < length ?cs \<and>
      depthOfInheritance (newEntry t (Some (addChild (cs1 ! p))) ms ats) =
        1 + depthOfInheritance (?cs ! p) \<and>
      parentClass (newEntry t (Some (addChild (cs1 ! p))) ms ats) = className (?cs ! p)"
    using child.hyps(4) by simp
  ultimately show ?case
    by (intro parentsListed_snoc) blast+
qed

lemma resolveAll_parentsListed:
  "resolveAll cs tys = Inr cs' \<Longrightarrow> parentsListed cs \<Longrightarrow> parentsListed cs'"
proof (induction tys arbitrary: cs)
  case Nil
  then show ?case by simp
next
  case (Cons t tys)
  from Cons.prems(1) obtain cs1 i where "getClassMetrics cs t = Inr (cs1, i)"
    "resolveAll cs1 tys = Inr cs'"
    by (auto split: sum.splits)
  with Cons.IH Cons.prems(2) getClassMetrics_parentsListed show ?case by blast
qed

lemma analysis_parentsListed:
  "analyze nodes = Inr result \<Longrightarrow> parentsListed (classes result)"
proof -
  assume "analyze nodes = Inr result"
  from analyze_Inr[OF this] obtain cs where cs: "analyzeNodes [] nodes = Inr cs" "result = ratios cs"
    by blast
  from resolveAll_parentsListed[of "[]" "classTypesOfNodes nodes" cs] cs(1)
  have "parentsListed cs" by (simp add: analyze_traversal parentsListed_def)
  with cs(2) show ?thesis by (simp add: ratios_sums)
qed

lemma clearedClass_lookup:
  "map_of (clearedClass c) ''className'' = Some (JString (className c))"
  "map_of (clearedClass c) ''parentClass'' =
     (if parentClass c = [] then None else Some (JString (parentClass c)))"
  by (simp_all add: clearedClass_def)

lemma emitted_parents_listed:
  assumes "analyze nodes = Inr result"
    and "i < length (classesF (formatMetrics result))"
    and "map_of (classesF (formatMetrics result) ! i) ''parentClass'' = Some (JString n)"
  shows "\<exists>k<i. map_of (classesF (formatMetrics result) ! k) ''className'' = Some (JString n)"
proof -
  let ?cs = "classes result"
  from assms(2) have i: "i < length ?cs" by (simp add: formatMetrics_def)
  then have out: "classesF (formatMetrics result) ! j = clearedClass (?cs ! j)" if "j \<le> i" for j
    using that by (simp add: formatMetrics_def)
  from assms(3) out[of i] have n: "parentClass (?cs ! i) = n" "n \<noteq> []"
    by (auto simp: clearedClass_lookup split: if_splits)
  with analysis_parentsListed[OF assms(1)] i obtain k where k: "k < i"
    "parentClass (?cs ! i) = className (?cs ! k)"
    unfolding parentsListed_def by fastforce
  with n out[of k] have "map_of (classesF (formatMetrics result) ! k) ''className'' = Some (JString n)"
    by (simp add: clearedClass_lookup)
  with k(1) show ?thesis by blast
qed

subsection \<open>The registry is a forest\<close>

lemma children_extend:
  "{i. i < Suc n \<and> (par(n := v)) i = Some k} =
     {i. i < n \<and> par i = Some k} \<union> (if v = Some k then {n} else {})"
  by (auto simp: less_Suc_eq)

lemma card_children_extend:
  "card {i. i < Suc n \<and> (par(n := v)) i = Some k} =
     card {i. i < n \<and> par i = Some k} + (if v = Some k then 1 else 0)"
proof -
  have fin: "finite {i. i < n \<and> par i = Some k}" by simp
  have nin: "n \<notin> {i. i < n \<and> par i = Some k}" by simp
  show ?thesis
    unfolding children_extend using fin nin by simp
qed

lemma forest_snoc:
  assumes f: "forest par cs"
    and e: "case v of
          None \<Rightarrow> depthOfInheritance e = 0 \<and> parentClass e = []
        | Some k \<Rightarrow>
            k < length cs \<and> depthOfInheritance e = 1 + depthOfInheritance (cs ! k) \<and>
            parentClass e = className (cs ! k)"
    and n: "numberOfChildren e = 0"
    and cs': "length cs' = length cs"
      "\<And>j. j < length cs \<Longrightarrow> depthOfInheritance (cs' ! j) = depthOfInheritance (cs ! j) \<and>
         parentClass (cs' ! j) = parentClass (cs ! j) \<and> className (cs' ! j) = className (cs ! j) \<and>
         numberOfChildren (cs' ! j) = numberOfChildren (cs ! j) + (if v = Some j then 1 else 0)"
  shows "forest (par(length cs := v)) (cs' @ [e])"
proof -
  let ?par = "par(length cs := v)" and ?n = "length cs"
  from f have shape: "\<And>i. i < ?n \<Longrightarrow>
        (case par i of
          None \<Rightarrow> depthOfInheritance (cs ! i) = 0 \<and> parentClass (cs ! i) = []
        | Some k \<Rightarrow>
            k < i \<and> depthOfInheritance (cs ! i) = 1 + depthOfInheritance (cs ! k) \<and>
            parentClass (cs ! i) = className (cs ! k))"
    and count: "\<And>k. k < ?n \<Longrightarrow> numberOfChildren (cs ! k) = card {i. i < ?n \<and> par i = Some k}"
    unfolding forest_def by blast+
  have below: "k < i" if "i < ?n" "par i = Some k" for i k
    using shape[OF that(1)] that(2) by simp
  have s: "case ?par i of
          None \<Rightarrow> depthOfInheritance ((cs' @ [e]) ! i) = 0 \<and> parentClass ((cs' @ [e]) ! i) = []
        | Some k \<Rightarrow>
            k < i \<and> depthOfInheritance ((cs' @ [e]) ! i) = 1 + depthOfInheritance ((cs' @ [e]) ! k) \<and>
            parentClass ((cs' @ [e]) ! i) = className ((cs' @ [e]) ! k)"
    if "i < length (cs' @ [e])" for i
  proof (cases "i < ?n")
    case True
    show ?thesis
    proof (cases "par i")
      case None
      with True shape[OF True] cs' show ?thesis by (simp add: nth_append)
    next
      case (Some k)
      with shape[OF True] have k: "k < i" by simp
      with True have "k < ?n" by simp
      with True Some shape[OF True] cs'(1) cs'(2)[OF True] cs'(2)[OF \<open>k < ?n\<close>] show ?thesis
        by (simp add: nth_append)
    qed
  next
    case False
    with that cs'(1) have i: "i = ?n" by simp
    show ?thesis
    proof (cases v)
      case None
      with i e cs'(1) show ?thesis by (simp add: nth_append)
    next
      case (Some k)
      with e have "k < ?n" by simp
      with i e Some cs'(1) cs'(2)[OF this] show ?thesis by (simp add: nth_append)
    qed
  qed
  have len: "length (cs' @ [e]) = Suc ?n" using cs'(1) by simp
  have c: "numberOfChildren ((cs' @ [e]) ! k) = card {i. i < length (cs' @ [e]) \<and> ?par i = Some k}"
    if "k < length (cs' @ [e])" for k
  proof -
    have cc: "card {i. i < length (cs' @ [e]) \<and> ?par i = Some k} =
        card {i. i < ?n \<and> par i = Some k} + (if v = Some k then 1 else 0)"
      unfolding len by (rule card_children_extend)
    show ?thesis
    proof (cases "k < ?n")
      case True
      with cs'(1) cs'(2)[OF True] count[OF True] show ?thesis
        unfolding cc by (simp add: nth_append)
    next
      case False
      with that cs'(1) have k: "k = ?n" by simp
      have "v \<noteq> Some ?n" using e by (auto split: option.splits)
      moreover have "{i. i < ?n \<and> par i = Some ?n} = {}"
        using below by fastforce
      ultimately show ?thesis
        unfolding cc using k n cs'(1) by (simp add: nth_append)
    qed
  qed
  from s c show ?thesis
    unfolding forest_def by blast
qed

lemma getClassMetrics_forest:
  "getClassMetrics cs t = Inr (cs', i) \<Longrightarrow> forest par cs \<Longrightarrow> \<exists>par'. forest par' cs'"
proof (induction arbitrary: par rule: getClassMetrics_induct)
  case (found cs t i)
  then show ?case by blast
next
  case (root cs t ms ats)
  have "forest (par(length cs := None)) (cs @ [newEntry t None ms ats])"
    using root.prems by (rule forest_snoc) simp_all
  then show ?case by blast
next
  case (child cs t b cs1 p ms ats)
  from child.IH[OF child.prems] obtain par1 where f1: "forest par1 cs1" by blast
  have "forest (par1(length cs1 := Some p))
          (cs1[p := addChild (cs1 ! p)] @ [newEntry t (Some (addChild (cs1 ! p))) ms ats])"
    using f1
  proof (rule forest_snoc)
    show "case Some p of
        None \<Rightarrow> depthOfInheritance (newEntry t (Some (addChild (cs1 ! p))) ms ats) = 0 \<and>
                parentClass (newEntry t (Some (addChild (cs1 ! p))) ms ats) = []
      | Some k \<Rightarrow> k < length cs1 \<and>
          depthOfInheritance (newEntry t (Some (addChild (cs1 ! p))) ms ats) =
            1 + depthOfInheritance (cs1 ! k) \<and>
          parentClass (newEntry t (Some (addChild (cs1 ! p))) ms ats) = className (cs1 ! k)"
      using child.hyps(4) by simp
    show "numberOfChildren (newEntry t (Some (addChild (cs1 ! p))) ms ats) = 0" by simp
    show "length (cs1[p := addChild (cs1 ! p)]) = length cs1" by simp
    show "depthOfInheritance (cs1[p := addChild (cs1 ! p)] ! j) = depthOfInheritance (cs1 ! j) \<and>
         parentClass (cs1[p := addChild (cs1 ! p)] ! j) = parentClass (cs1 ! j) \<and>
         className (cs1[p := addChild (cs1 ! p)] ! j) = className (cs1 ! j) \<and>
         numberOfChildren (cs1[p := addChild (cs1 ! p)] ! j) =
           numberOfChildren (cs1 ! j) + (if Some p = Some j then 1 else 0)"
      if "j < length cs1" for j
      using that by (cases "j = p") simp_all
  qed
  then show ?case by blast
qed

lemma resolveAll_forest:
  "resolveAll cs tys = Inr cs' \<Longrightarrow> forest par cs \<Longrightarrow> \<exists>par'. forest par' cs'"
proof (induction tys arbitrary: cs par)
  case Nil
  then show ?case by auto
next
  case (Cons t tys)
  from Cons.prems(1) obtain cs1 i where "getClassMetrics cs t = Inr (cs1, i)"
    "resolveAll cs1 tys = Inr cs'"
    by (auto split: sum.splits)
  with Cons.IH Cons.prems(2) getClassMetrics_forest show ?case by blast
qed

lemma analysis_forest:
  "analyze nodes = Inr result \<Longrightarrow> \<exists>par. forest par (classes result)"
proof -
  assume "analyze nodes = Inr result"
  from analyze_Inr[OF this] obtain cs where cs: "analyzeNodes [] nodes = Inr cs" "result = ratios cs"
    by blast
  have "forest (\<lambda>i. None) []" by (simp add: forest_def)
  from resolveAll_forest[OF _ this, of "classTypesOfNodes nodes" cs] cs(1)
  have "\<exists>par. forest par cs" by (simp add: analyze_traversal)
  with cs(2) show ?thesis by (simp add: ratios_sums)
qed

subsection \<open>The registry after the analysis\<close>

lemma analysis_represents_universe:
  assumes "consistent (universe nodes)" and "analyze nodes = Inr result"
  shows "\<exists>ts. represents (universe nodes) ts (classes result) \<and> set ts = set (universe nodes)"
proof -
  from analyze_Inr[OF assms(2)] obtain cs where "analyzeNodes [] nodes = Inr cs" "result = ratios cs"
    by blast
  with traversal_represents_universe[OF assms(1), of cs] show ?thesis
    by (simp add: ratios_sums)
qed

lemma represented_type:
  assumes rep: "represents U ts cs" and U: "consistent U" and t: "t \<in> set ts"
  obtains j where "j < length ts" "ts ! j = t" "registered cs t = Some j"
    "depthOfInheritance (cs ! j) = depthOf t"
    "numberOfChildren (cs ! j) = length (childrenIn ts t)"
proof -
  from t obtain j where j: "j < length ts" "ts ! j = t"
    by (auto simp: in_set_conv_nth)
  from rep have m: "matches ts cs" by (simp add: represents_def)
  from represents_registered[OF rep U j(1)] j(2) have "registered cs t = Some j" by simp
  moreover from m j have "depthOfInheritance (cs ! j) = depthOf t"
    "numberOfChildren (cs ! j) = length (childrenIn ts t)"
    by (auto simp: matches_nth)
  ultimately show thesis using j that by blast
qed

lemma represented_parent:
  assumes rep: "represents U ts cs" and j: "j < length ts" and b: "getBaseTypes (ts ! j) = Some [p]"
  obtains k where "k < j" "ts ! k = p"
proof -
  from rep have "parentsFirst ts" by (simp add: represents_def)
  moreover from b have "\<not> rootType (ts ! j)" by (simp add: rootType_def)
  ultimately obtain k where "k < j" "getBaseTypes (ts ! j) = Some [ts ! k]"
    using j unfolding parentsFirst_def by blast
  with b that show thesis by simp
qed

lemma represented_single_or_root:
  assumes rep: "represents U ts cs" and t: "t \<in> set ts"
  shows "rootType t \<or> (\<exists>p. getBaseTypes t = Some [p])"
proof -
  from t obtain j where j: "j < length ts" "ts ! j = t"
    by (auto simp: in_set_conv_nth)
  from rep have "parentsFirst ts" by (simp add: represents_def)
  with j show ?thesis unfolding parentsFirst_def by blast
qed

lemma resolved_depths:
  assumes "consistent (universe nodes)" and "analyze nodes = Inr result"
  shows "(\<forall>c\<in>set (classes result). \<exists>t\<in>set (universe nodes). identityOfClass c = identityOf t) \<and>
    (\<forall>t\<in>set (universe nodes).
       (rootType t \<or> (\<exists>p. getBaseTypes t = Some [p])) \<and>
       (\<exists>i. registered (classes result) t = Some i \<and>
          (rootType t \<longrightarrow> depthOfInheritance (classes result ! i) = 0) \<and>
          (\<forall>p. getBaseTypes t = Some [p] \<longrightarrow>
             (\<exists>k<i. registered (classes result) p = Some k \<and>
                depthOfInheritance (classes result ! i) =
                  1 + depthOfInheritance (classes result ! k)))))"
proof -
  let ?U = "universe nodes" and ?cs = "classes result"
  from analysis_represents_universe[OF assms] obtain ts where
    rep: "represents ?U ts ?cs" and ts: "set ts = set ?U" by blast
  from rep have m: "matches ts ?cs" by (simp add: represents_def)
  have cover: "\<forall>c\<in>set ?cs. \<exists>t\<in>set ?U. identityOfClass c = identityOf t"
    using matches_identities[OF m] ts by (metis (no_types, lifting) image_iff)
  have each: "(rootType t \<or> (\<exists>p. getBaseTypes t = Some [p])) \<and>
       (\<exists>i. registered ?cs t = Some i \<and>
          (rootType t \<longrightarrow> depthOfInheritance (?cs ! i) = 0) \<and>
          (\<forall>p. getBaseTypes t = Some [p] \<longrightarrow>
             (\<exists>k<i. registered ?cs p = Some k \<and>
                depthOfInheritance (?cs ! i) = 1 + depthOfInheritance (?cs ! k))))"
    if "t \<in> set ?U" for t
  proof -
    from that ts have t: "t \<in> set ts" by simp
    from represented_type[OF rep assms(1) t] obtain j where j: "j < length ts" "ts ! j = t"
      "registered ?cs t = Some j" "depthOfInheritance (?cs ! j) = depthOf t" by metis
    have root: "rootType t \<longrightarrow> depthOfInheritance (?cs ! j) = 0"
      using j(4) by (simp add: depthOf_root)
    have par: "\<exists>k<j. registered ?cs p = Some k \<and>
        depthOfInheritance (?cs ! j) = 1 + depthOfInheritance (?cs ! k)"
      if b: "getBaseTypes t = Some [p]" for p
    proof -
      from represented_parent[OF rep j(1)] b j(2) obtain k where k: "k < j" "ts ! k = p" by metis
      with j(1) have "p \<in> set ts" by auto
      from represented_type[OF rep assms(1) this] obtain k' where k': "k' < length ts" "ts ! k' = p"
        "registered ?cs p = Some k'" "depthOfInheritance (?cs ! k') = depthOf p" by metis
      from rep have d: "distinct ts" by (simp add: represents_def)
      from k(1) j(1) have kl: "k < length ts" by simp
      from k(2) k'(2) have "ts ! k' = ts ! k" by simp
      with d k'(1) kl have "k' = k" by (simp add: nth_eq_iff_index_eq)
      with k' k(1) j(4) depthOf_single[OF b] show ?thesis by auto
    qed
    from represented_single_or_root[OF rep t] j(3) root par show ?thesis by blast
  qed
  from cover each show ?thesis by blast
qed

text \<open>
  C5: after a successful analysis every class of the registry has depth \<open>0\<close> and no
  parent name, or one more than the depth of an earlier class whose name is its parent
  name. When the types of the program are determined by their identities, the registry
  holds the types of the program and nothing else, every type has no base type or one,
  and the depth of a class is \<open>0\<close> when it has no base type and one more than the depth of
  its parent when it has one; the parent stands before the class in the registry.
\<close>

theorem depth_is_one_more_than_the_depth_of_the_parent:
  assumes "analyze nodes = Inr result"
  shows "(\<forall>i<length (classes result).
       (depthOfInheritance (classes result ! i) = 0 \<and> parentClass (classes result ! i) = []) \<or>
       (\<exists>k<i. depthOfInheritance (classes result ! i) =
                 1 + depthOfInheritance (classes result ! k) \<and>
               parentClass (classes result ! i) = className (classes result ! k))) \<and>
    (consistent (universe nodes) \<longrightarrow>
      (\<forall>c\<in>set (classes result). \<exists>t\<in>set (universe nodes). identityOfClass c = identityOf t) \<and>
      (\<forall>t\<in>set (universe nodes).
         (rootType t \<or> (\<exists>p. getBaseTypes t = Some [p])) \<and>
         (\<exists>i. registered (classes result) t = Some i \<and>
            (rootType t \<longrightarrow> depthOfInheritance (classes result ! i) = 0) \<and>
            (\<forall>p. getBaseTypes t = Some [p] \<longrightarrow>
               (\<exists>k<i. registered (classes result) p = Some k \<and>
                  depthOfInheritance (classes result ! i) =
                    1 + depthOfInheritance (classes result ! k))))))"
  using analysis_parentsListed[OF assms] resolved_depths[OF _ assms]
  unfolding parentsListed_def by blast

lemma example_universe: "universe exampleProgram = [exampleB, exampleA, exampleA]"
  by code_simp

lemma example_universe_consistent: "consistent (universe exampleProgram)"
  by code_simp

lemma example_registered:
  "registered [exampleA_metrics, exampleB_metrics] exampleA = Some 0"
  "registered [exampleA_metrics, exampleB_metrics] exampleB = Some 1"
  by code_simp+

lemma example_base: "getBaseTypes exampleB = Some [exampleA]"
  by (simp add: exampleB_def)

theorem depth_is_one_more_than_the_depth_of_the_parent_witness:
  "consistent (universe exampleProgram) \<and>
   analyze exampleProgram = Inr (ratios [exampleA_metrics, exampleB_metrics]) \<and>
   exampleB \<in> set (universe exampleProgram) \<and>
   getBaseTypes exampleB = Some [exampleA] \<and>
   registered [exampleA_metrics, exampleB_metrics] exampleB = Some 1 \<and>
   registered [exampleA_metrics, exampleB_metrics] exampleA = Some 0 \<and>
   depthOfInheritance ([exampleA_metrics, exampleB_metrics] ! 1) =
     1 + depthOfInheritance ([exampleA_metrics, exampleB_metrics] ! 0)"
proof -
  let ?cs = "[exampleA_metrics, exampleB_metrics]"
  have inU: "exampleB \<in> set (universe exampleProgram)"
    by (simp add: example_universe)
  from depth_is_one_more_than_the_depth_of_the_parent[OF example_run] example_universe_consistent
  have "\<forall>t\<in>set (universe exampleProgram).
       (\<exists>i. registered ?cs t = Some i \<and>
          (\<forall>p. getBaseTypes t = Some [p] \<longrightarrow>
             (\<exists>k<i. registered ?cs p = Some k \<and>
                depthOfInheritance (?cs ! i) = 1 + depthOfInheritance (?cs ! k))))"
    unfolding ratios_sums by blast
  with inU example_base obtain i k where "registered ?cs exampleB = Some i"
    "registered ?cs exampleA = Some k"
    "depthOfInheritance (?cs ! i) = 1 + depthOfInheritance (?cs ! k)"
    by blast
  with example_registered have d: "depthOfInheritance (?cs ! 1) = 1 + depthOfInheritance (?cs ! 0)"
    by simp
  show ?thesis
    by (intro conjI) (rule example_universe_consistent example_run inU example_base
        example_registered d)+
qed

lemma resolved_children:
  assumes "consistent (universe nodes)" and "analyze nodes = Inr result"
  shows "(\<forall>c\<in>set (classes result). \<exists>t\<in>set (universe nodes). identityOfClass c = identityOf t) \<and>
    (\<forall>t\<in>set (universe nodes).
       \<exists>i. registered (classes result) t = Some i \<and>
           numberOfChildren (classes result ! i) =
             card {d \<in> set (universe nodes). getBaseTypes d = Some [t]})"
proof -
  let ?U = "universe nodes" and ?cs = "classes result"
  from analysis_represents_universe[OF assms] obtain ts where
    rep: "represents ?U ts ?cs" and ts: "set ts = set ?U" by blast
  from rep have m: "matches ts ?cs" and d: "distinct ts" by (simp_all add: represents_def)
  have cover: "\<forall>c\<in>set ?cs. \<exists>t\<in>set ?U. identityOfClass c = identityOf t"
    using matches_identities[OF m] ts by (metis (no_types, lifting) image_iff)
  have each: "\<exists>i. registered ?cs t = Some i \<and>
      numberOfChildren (?cs ! i) = card {d \<in> set ?U. getBaseTypes d = Some [t]}"
    if "t \<in> set ?U" for t
  proof -
    from that ts have t: "t \<in> set ts" by simp
    from represented_type[OF rep assms(1) t] obtain j where j: "registered ?cs t = Some j"
      "numberOfChildren (?cs ! j) = length (childrenIn ts t)" by metis
    have "length (childrenIn ts t) = card ({d. getBaseTypes d = Some [t]} \<inter> set ts)"
      unfolding childrenIn_def using d by (rule distinct_length_filter)
    also have "{d. getBaseTypes d = Some [t]} \<inter> set ts = {d \<in> set ?U. getBaseTypes d = Some [t]}"
      using ts by auto
    finally show ?thesis using j by auto
  qed
  from cover each show ?thesis by blast
qed

text \<open>
  C6: after a successful analysis the registry is a forest under some assignment of
  parents, so that the number of children of a class is the number of classes whose
  parent it is. When the types of the program are determined by their identities, the
  registry holds the types of the program and nothing else, and the number of children
  of a class is the number of distinct types of the program whose base type it is,
  however often the traversal and the ancestor lookups reach them.
\<close>

theorem numberOfChildren_counts_the_distinct_children:
  assumes "analyze nodes = Inr result"
  shows "(\<exists>par. forest par (classes result)) \<and>
    (consistent (universe nodes) \<longrightarrow>
      (\<forall>c\<in>set (classes result). \<exists>t\<in>set (universe nodes). identityOfClass c = identityOf t) \<and>
      (\<forall>t\<in>set (universe nodes).
         \<exists>i. registered (classes result) t = Some i \<and>
             numberOfChildren (classes result ! i) =
               card {d \<in> set (universe nodes). getBaseTypes d = Some [t]}))"
  using analysis_forest[OF assms] resolved_children[OF _ assms]
  by blast

lemma example_hierarchy_universe:
  "universe exampleHierarchy = [exampleC, exampleB, exampleA, exampleB, exampleA, exampleA]"
  by code_simp

lemma example_hierarchy_consistent: "consistent (universe exampleHierarchy)"
  by code_simp

lemma example_hierarchy_run: "analyze exampleHierarchy = Inr (ratios exampleRegistry)"
  by code_simp

lemma example_hierarchy_registered:
  "registered exampleRegistry exampleA = Some 0"
  "registered exampleRegistry exampleB = Some 1"
  "registered exampleRegistry exampleC = Some 2"
  by code_simp+

lemma example_hierarchy_bases:
  "getBaseTypes exampleA = None" "getBaseTypes exampleB = Some [exampleA]"
  "getBaseTypes exampleC = Some [exampleB]"
  by (simp_all add: exampleA_def exampleB_def exampleC_def)

lemma example_distinct: "exampleB \<noteq> exampleA" "exampleC \<noteq> exampleA" "exampleC \<noteq> exampleB"
  by (simp_all add: exampleA_def exampleB_def exampleC_def)

theorem numberOfChildren_counts_the_distinct_children_witness:
  "consistent (universe exampleHierarchy) \<and>
   analyze exampleHierarchy = Inr (ratios exampleRegistry) \<and>
   universe exampleHierarchy = [exampleC, exampleB, exampleA, exampleB, exampleA, exampleA] \<and>
   registered exampleRegistry exampleA = Some 0 \<and>
   {d \<in> set (universe exampleHierarchy). getBaseTypes d = Some [exampleA]} = {exampleB} \<and>
   numberOfChildren (exampleRegistry ! 0) = 1"
proof -
  have inU: "exampleA \<in> set (universe exampleHierarchy)"
    by (simp add: example_hierarchy_universe)
  have kids: "{d \<in> set (universe exampleHierarchy). getBaseTypes d = Some [exampleA]} = {exampleB}"
    unfolding example_hierarchy_universe
    using example_distinct by (auto simp: example_hierarchy_bases)
  from numberOfChildren_counts_the_distinct_children[OF example_hierarchy_run]
    example_hierarchy_consistent
  have "\<forall>t\<in>set (universe exampleHierarchy).
       \<exists>i. registered exampleRegistry t = Some i \<and>
           numberOfChildren (exampleRegistry ! i) =
             card {d \<in> set (universe exampleHierarchy). getBaseTypes d = Some [t]}"
    unfolding ratios_sums by blast
  with inU obtain i where "registered exampleRegistry exampleA = Some i"
    "numberOfChildren (exampleRegistry ! i) =
       card {d \<in> set (universe exampleHierarchy). getBaseTypes d = Some [exampleA]}"
    by blast
  with example_hierarchy_registered(1) kids have n: "numberOfChildren (exampleRegistry ! 0) = 1"
    by simp
  show ?thesis
    by (intro conjI) (rule example_hierarchy_consistent example_hierarchy_run
        example_hierarchy_universe example_hierarchy_registered kids n)+
qed

lemma resolved_order:
  assumes "consistent (universe nodes)" and "analyze nodes = Inr result"
    and "t \<in> set (universe nodes)" and "getBaseTypes t = Some [p]"
  shows "\<exists>i k. k < i \<and> i < length (classesF (formatMetrics result)) \<and>
      registered (classes result) t = Some i \<and> registered (classes result) p = Some k \<and>
      classesF (formatMetrics result) ! i = clearedClass (classes result ! i) \<and>
      classesF (formatMetrics result) ! k = clearedClass (classes result ! k)"
proof -
  let ?U = "universe nodes" and ?cs = "classes result"
  from analysis_represents_universe[OF assms(1,2)] obtain ts where
    rep: "represents ?U ts ?cs" and ts: "set ts = set ?U" by blast
  from rep have m: "matches ts ?cs" and d: "distinct ts" by (simp_all add: represents_def)
  from assms(3) ts have t: "t \<in> set ts" by simp
  from represented_type[OF rep assms(1) t] obtain j where j: "j < length ts" "ts ! j = t"
    "registered ?cs t = Some j" by metis
  from represented_parent[OF rep j(1)] assms(4) j(2) obtain k where k: "k < j" "ts ! k = p"
    by metis
  from k(1) j(1) have kl: "k < length ts" by simp
  from represents_registered[OF rep assms(1) kl] k(2) have rp: "registered ?cs p = Some k"
    by simp
  have len: "length ?cs = length ts" using m by (rule matches_length)
  with j(1) kl have "j < length (classesF (formatMetrics result))"
    "classesF (formatMetrics result) ! j = clearedClass (?cs ! j)"
    "classesF (formatMetrics result) ! k = clearedClass (?cs ! k)"
    by (simp_all add: formatMetrics_def)
  with k(1) j(3) rp show ?thesis by blast
qed

text \<open>
  C10: after a successful analysis, every projected class the formatter emits with a
  \<open>parentClass\<close> key comes after a projected class with that name as \<open>className\<close>. When
  the types of the program are determined by their identities, a class with a base type
  stands at a later index than its parent, in the registry and in the array of projected
  classes, which keeps the order of the registry.
\<close>

theorem parents_stand_before_their_children:
  assumes "analyze nodes = Inr result"
  shows "(\<forall>i<length (classesF (formatMetrics result)). \<forall>n.
       map_of (classesF (formatMetrics result) ! i) ''parentClass'' = Some (JString n) \<longrightarrow>
       (\<exists>k<i. map_of (classesF (formatMetrics result) ! k) ''className'' = Some (JString n))) \<and>
    (consistent (universe nodes) \<longrightarrow>
      (\<forall>t\<in>set (universe nodes). \<forall>p. getBaseTypes t = Some [p] \<longrightarrow>
         (\<exists>i k. k < i \<and> i < length (classesF (formatMetrics result)) \<and>
            registered (classes result) t = Some i \<and> registered (classes result) p = Some k \<and>
            classesF (formatMetrics result) ! i = clearedClass (classes result ! i) \<and>
            classesF (formatMetrics result) ! k = clearedClass (classes result ! k))))"
  using emitted_parents_listed[OF assms] resolved_order[OF _ assms]
  by blast

theorem parents_stand_before_their_children_witness:
  "consistent (universe exampleHierarchy) \<and>
   analyze exampleHierarchy = Inr (ratios exampleRegistry) \<and>
   exampleC \<in> set (universe exampleHierarchy) \<and>
   getBaseTypes exampleC = Some [exampleB] \<and>
   registered exampleRegistry exampleC = Some 2 \<and>
   registered exampleRegistry exampleB = Some 1 \<and>
   classesF (formatMetrics (ratios exampleRegistry)) ! 2 = clearedClass (exampleRegistry ! 2) \<and>
   classesF (formatMetrics (ratios exampleRegistry)) ! 1 = clearedClass (exampleRegistry ! 1)"
proof -
  have inU: "exampleC \<in> set (universe exampleHierarchy)"
    by (simp add: example_hierarchy_universe)
  from parents_stand_before_their_children[OF example_hierarchy_run]
    example_hierarchy_consistent inU example_hierarchy_bases(3)
  obtain i k where "registered exampleRegistry exampleC = Some i"
    "registered exampleRegistry exampleB = Some k"
    "classesF (formatMetrics (ratios exampleRegistry)) ! i = clearedClass (exampleRegistry ! i)"
    "classesF (formatMetrics (ratios exampleRegistry)) ! k = clearedClass (exampleRegistry ! k)"
    unfolding ratios_sums by blast
  with example_hierarchy_registered have
    f: "classesF (formatMetrics (ratios exampleRegistry)) ! 2 = clearedClass (exampleRegistry ! 2)"
       "classesF (formatMetrics (ratios exampleRegistry)) ! 1 = clearedClass (exampleRegistry ! 1)"
    by simp_all
  show ?thesis
    by (intro conjI) (rule example_hierarchy_consistent example_hierarchy_run inU
        example_hierarchy_bases example_hierarchy_registered f)+
qed

subsection \<open>Errors\<close>

lemma failureOf_mono: "failureOf ts e \<Longrightarrow> set ts \<subseteq> set us \<Longrightarrow> failureOf us e"
  unfolding failureOf_def by blast

lemma getClassMetrics_Inl:
  "getClassMetrics cs t = Inl e \<Longrightarrow> failureOf (t # ancestors t) e"
proof (induction t arbitrary: cs rule: measure_induct_rule[where f = size])
  case (less t)
  show ?case
  proof (cases "registered cs t")
    case (Some i)
    from getClassMetrics_found[OF Some] less.prems show ?thesis by simp
  next
    case None
    have props: "failureOf (t # ancestors t) e"
      if "analyzeProps this parentCls t = Inl e" for this parentCls
      using analyzeProps_Inl[OF that] by (auto simp: failureOf_def)
    show ?thesis
    proof (cases "rootType t")
      case True
      from less.prems getClassMetrics_root[OF None True] props show ?thesis
        by (auto split: sum.splits)
    next
      case False
      then obtain bs where bs: "getBaseTypes t = Some bs" "bs \<noteq> []"
        by (auto simp: rootType_def)
      show ?thesis
      proof (cases "2 \<le> length bs")
        case True
        from getClassMetrics_multiple[OF None bs(1) True] less.prems bs(1) True show ?thesis
          by (auto simp: failureOf_def)
      next
        case False
        with bs(2) obtain b where "bs = [b]"
          by (cases bs) (auto simp: Suc_le_eq)
        with bs(1) have b: "getBaseTypes t = Some [b]" by simp
        have up: "failureOf (t # ancestors t) e" if "getClassMetrics cs b = Inl e"
          using less.IH[OF size_single_base[OF b] that]
          by (rule failureOf_mono) (auto simp: ancestors_single[OF b])
        from less.prems getClassMetrics_child[OF None b] props up show ?thesis
          by (auto split: sum.splits prod.splits)
      qed
    qed
  qed
qed

lemma resolveAll_Inl:
  "resolveAll cs tys = Inl e \<Longrightarrow> failureOf (withAncestors tys) e"
proof (induction tys arbitrary: cs)
  case Nil
  then show ?case by simp
next
  case (Cons t tys)
  show ?case
  proof (cases "getClassMetrics cs t")
    case (Inl e')
    with Cons.prems have "e' = e" by simp
    with getClassMetrics_Inl[OF Inl] show ?thesis
      by (auto elim: failureOf_mono)
  next
    case (Inr r)
    then obtain cs1 i where "getClassMetrics cs t = Inr (cs1, i)" by (cases r) auto
    with Cons.prems have "resolveAll cs1 tys = Inl e" by simp
    from Cons.IH[OF this] show ?thesis
      by (auto elim: failureOf_mono)
  qed
qed

lemma analyze_Inl: "analyze nodes = Inl e \<Longrightarrow> failureOf (universe nodes) e"
  by (auto simp: analyze_def universe_def analyze_traversal split: sum.splits dest: resolveAll_Inl)

text \<open>The analysis succeeds when every type has \<open>declarations\<close> and at most one base type.\<close>

lemma analyze_succeeds:
  assumes "\<forall>t\<in>set (universe nodes). symbolDeclarations t \<noteq> None \<and>
             (\<forall>bs. getBaseTypes t = Some bs \<longrightarrow> length bs \<le> 1)"
  shows "\<exists>result. analyze nodes = Inr result"
proof (cases "analyze nodes")
  case (Inl e)
  from analyze_Inl[OF Inl] assms have False
    unfolding failureOf_def by fastforce
  then show ?thesis ..
next
  case (Inr result)
  then show ?thesis by blast
qed

lemma hasMultipleBaseTypes_iff:
  "hasMultipleBaseTypes t \<longleftrightarrow> (\<exists>bs. getBaseTypes t = Some bs \<and> 2 \<le> length bs)"
  by (auto simp: hasMultipleBaseTypes_def split: option.splits)











lemma example_unsupported_universe:
  "universe exampleUnsupported = [exampleB, exampleA, exampleD, exampleA, exampleB, exampleA]"
  by code_simp








section \<open>Zero denominators\<close>

lemma classified_needs_parent_props:
  assumes "analyzeProps (newPropertyMetrics pt) parentCls t = Inr pm"
    and "inherited pm \<noteq> [] \<or> overridden pm \<noteq> []"
  shows "parentUnion pt parentCls \<noteq> {}"
proof -
  note spec = analyzeProps_spec[OF assms(1)]
  from assms(2) obtain d where "nameMatches (parentUnion pt parentCls) d"
    unfolding spec(4,5) by (auto simp: filter_empty_conv)
  then show ?thesis by (auto simp: nameMatches_def)
qed

lemma update_addChild_back:
  assumes "c \<in> set (cs[p := addChild (cs ! p)])"
  shows "\<exists>c0\<in>set cs. methods c = methods c0 \<and> numberOfChildren c0 \<le> numberOfChildren c"
proof -
  from assms obtain j where j: "j < length cs" "c = (cs[p := addChild (cs ! p)]) ! j"
    by (auto simp: in_set_conv_nth)
  show ?thesis
  proof (cases "j = p")
    case True
    with j have "c = addChild (cs ! p)" "cs ! p \<in> set cs" by simp_all
    then show ?thesis by (intro bexI[of _ "cs ! p"]) simp_all
  next
    case False
    with j have "c = cs ! j" "cs ! j \<in> set cs" by simp_all
    then show ?thesis by (intro bexI[of _ "cs ! j"]) simp_all
  qed
qed

lemma update_addChild_forth:
  assumes "c0 \<in> set cs"
  shows "\<exists>c\<in>set (cs[p := addChild (cs ! p)]).
           methods c = methods c0 \<and> numberOfChildren c0 \<le> numberOfChildren c"
proof -
  from assms obtain j where j: "j < length cs" "c0 = cs ! j"
    by (auto simp: in_set_conv_nth)
  let ?cs = "cs[p := addChild (cs ! p)]"
  have mem: "?cs ! j \<in> set ?cs" using j(1) by simp
  show ?thesis
  proof (cases "j = p")
    case True
    with j have "?cs ! j = addChild c0" by simp
    with mem show ?thesis by (intro bexI[of _ "?cs ! j"]) simp_all
  next
    case False
    with j have "?cs ! j = c0" by simp
    with mem show ?thesis by (intro bexI[of _ "?cs ! j"]) simp_all
  qed
qed

lemma polymorphismGrounded_addChild:
  assumes "polymorphismGrounded cs"
  shows "polymorphismGrounded (cs[p := addChild (cs ! p)])"
  unfolding polymorphismGrounded_def
proof
  let ?cs = "cs[p := addChild (cs ! p)]"
  assume "\<exists>c\<in>set ?cs. inherited (methods c) \<noteq> [] \<or> overridden (methods c) \<noteq> []"
  then obtain c where "c \<in> set ?cs" "inherited (methods c) \<noteq> [] \<or> overridden (methods c) \<noteq> []"
    by blast
  with update_addChild_back[of c cs p]
  have "\<exists>c0\<in>set cs. inherited (methods c0) \<noteq> [] \<or> overridden (methods c0) \<noteq> []"
    by metis
  with assms obtain r where r: "r \<in> set cs" "own (methods r) \<noteq> []" "0 < numberOfChildren r"
    unfolding polymorphismGrounded_def by blast
  from update_addChild_forth[OF r(1), of p] obtain r' where
    "r' \<in> set ?cs" "methods r' = methods r" "numberOfChildren r \<le> numberOfChildren r'" by blast
  with r(2,3) show "\<exists>r\<in>set ?cs. own (methods r) \<noteq> [] \<and> 0 < numberOfChildren r"
    by (intro bexI[of _ r']) auto
qed

lemma polymorphismGrounded_snoc:
  assumes "polymorphismGrounded cs"
    and "inherited (methods e) \<noteq> [] \<or> overridden (methods e) \<noteq> [] \<Longrightarrow>
         \<exists>r\<in>set cs. own (methods r) \<noteq> [] \<and> 0 < numberOfChildren r"
  shows "polymorphismGrounded (cs @ [e])"
  using assms unfolding polymorphismGrounded_def by auto

lemma getClassMetrics_polymorphismGrounded:
  "getClassMetrics cs t = Inr (cs', i) \<Longrightarrow> polymorphismGrounded cs \<Longrightarrow> polymorphismGrounded cs'"
proof (induction rule: getClassMetrics_induct)
  case (found cs t i)
  then show ?case by simp
next
  case (root cs t ms ats)
  have "inherited ms = [] \<and> overridden ms = []"
    using classified_needs_parent_props[OF root.hyps(3)] by (auto simp: parentUnion_def)
  with root.prems show ?case
    by (intro polymorphismGrounded_snoc) simp_all
next
  case (child cs t b cs1 p ms ats)
  let ?cs = "cs1[p := addChild (cs1 ! p)]" and ?P = "addChild (cs1 ! p)"
  have g1: "polymorphismGrounded cs1" using child.IH child.prems by simp
  then have g: "polymorphismGrounded ?cs" by (rule polymorphismGrounded_addChild)
  have P: "?P \<in> set ?cs" using child.hyps(4) by (simp add: set_update_memI)
  show ?case
  proof (rule polymorphismGrounded_snoc[OF g])
    assume "inherited (methods (newEntry t (Some ?P) ms ats)) \<noteq> [] \<or>
            overridden (methods (newEntry t (Some ?P) ms ats)) \<noteq> []"
    then have "inherited ms \<noteq> [] \<or> overridden ms \<noteq> []" by simp
    from classified_needs_parent_props[OF child.hyps(5) this]
    have "own (methods ?P) \<noteq> [] \<or> inherited (methods ?P) \<noteq> [] \<or> overridden (methods ?P) \<noteq> []"
      by (auto simp: parentUnion_def bucket_def)
    then show "\<exists>r\<in>set ?cs. own (methods r) \<noteq> [] \<and> 0 < numberOfChildren r"
    proof
      assume "own (methods ?P) \<noteq> []"
      with P show ?thesis by (intro bexI[of _ ?P]) simp_all
    next
      assume "inherited (methods ?P) \<noteq> [] \<or> overridden (methods ?P) \<noteq> []"
      with g P show ?thesis unfolding polymorphismGrounded_def by blast
    qed
  qed
qed

lemma resolveAll_polymorphismGrounded:
  "resolveAll cs tys = Inr cs' \<Longrightarrow> polymorphismGrounded cs \<Longrightarrow> polymorphismGrounded cs'"
proof (induction tys arbitrary: cs)
  case Nil
  then show ?case by simp
next
  case (Cons t tys)
  from Cons.prems(1) obtain cs1 i where "getClassMetrics cs t = Inr (cs1, i)"
    "resolveAll cs1 tys = Inr cs'"
    by (auto split: sum.splits)
  with Cons.IH Cons.prems(2) getClassMetrics_polymorphismGrounded show ?case by blast
qed

lemma traversal_polymorphismGrounded:
  "analyzeNodes [] nodes = Inr cs \<Longrightarrow> polymorphismGrounded cs"
  using resolveAll_polymorphismGrounded[of "[]" "classTypesOfNodes nodes" cs]
  by (simp add: analyze_traversal polymorphismGrounded_def)

lemma sum_list_nat_0: "sum_list (map f xs) = (0::nat) \<longleftrightarrow> (\<forall>x\<in>set xs. f x = 0)"
  by (induction xs) auto

text \<open>
  C8: the analysis succeeds whenever the traversal does, whatever the denominators are,
  and a ratio whose total denominator is zero is \<open>NaN\<close>: with the denominator the
  numerator is zero too, for the polymorphism factor because a class with an inherited
  or overridden method has an ancestor with a method of its own and a child. A program
  without classes has all five denominators zero.
\<close>

theorem zero_denominator_gives_NaN:
  "analyzeNodes [] nodes = Inr cs \<Longrightarrow>
   \<exists>result. analyze nodes = Inr result \<and> classes result = cs \<and>
     ((\<Sum>c\<leftarrow>cs. lengthPM (methods c)) = 0 \<longrightarrow> mif result = JsNaN \<and> mhf result = JsNaN) \<and>
     ((\<Sum>c\<leftarrow>cs. lengthPM (attributes c)) = 0 \<longrightarrow> aif result = JsNaN \<and> ahf result = JsNaN) \<and>
     ((\<Sum>c\<leftarrow>cs. length (own (methods c)) * numberOfChildren c) = 0 \<longrightarrow> pof result = JsNaN)"
proof -
  assume run: "analyzeNodes [] nodes = Inr cs"
  then have a: "analyze nodes = Inr (ratios cs)" by (simp add: analyze_def)
  have m: "mif (ratios cs) = JsNaN \<and> mhf (ratios cs) = JsNaN"
    if "(\<Sum>c\<leftarrow>cs. lengthPM (methods c)) = 0"
  proof -
    from that have z: "\<forall>c\<in>set cs. lengthPM (methods c) = 0" by (simp only: sum_list_nat_0)
    then have "(\<Sum>c\<leftarrow>cs. length (inherited (methods c)) + length (own (methods c))) = 0"
      "(\<Sum>c\<leftarrow>cs. privateCount (methods c)) = 0"
      unfolding sum_list_nat_0 by (auto simp: lengthPM_def allProps_def)
    with that show ?thesis by (simp add: ratios_sums jsDivide_def)
  qed
  have at: "aif (ratios cs) = JsNaN \<and> ahf (ratios cs) = JsNaN"
    if "(\<Sum>c\<leftarrow>cs. lengthPM (attributes c)) = 0"
  proof -
    from that have z: "\<forall>c\<in>set cs. lengthPM (attributes c) = 0" by (simp only: sum_list_nat_0)
    then have "(\<Sum>c\<leftarrow>cs. length (inherited (attributes c)) + length (own (attributes c))) = 0"
      "(\<Sum>c\<leftarrow>cs. privateCount (attributes c)) = 0"
      unfolding sum_list_nat_0 by (auto simp: lengthPM_def allProps_def)
    with that show ?thesis by (simp add: ratios_sums jsDivide_def)
  qed
  have p: "pof (ratios cs) = JsNaN"
    if "(\<Sum>c\<leftarrow>cs. length (own (methods c)) * numberOfChildren c) = 0"
  proof -
    from that have z: "\<forall>c\<in>set cs. length (own (methods c)) * numberOfChildren c = 0"
      by (simp only: sum_list_nat_0)
    then have "\<not> (\<exists>r\<in>set cs. own (methods r) \<noteq> [] \<and> 0 < numberOfChildren r)"
      by auto
    with traversal_polymorphismGrounded[OF run]
    have "\<forall>c\<in>set cs. inherited (methods c) = [] \<and> overridden (methods c) = []"
      unfolding polymorphismGrounded_def by blast
    then have "(\<Sum>c\<leftarrow>cs. length (inherited (methods c)) + length (overridden (methods c))) = 0"
      unfolding sum_list_nat_0 by auto
    with that show ?thesis by (simp add: ratios_sums jsDivide_def)
  qed
  from a m at p show ?thesis
    by (intro exI[of _ "ratios cs"]) (simp add: ratios_sums(6))
qed

lemma example_alone_traversal:
  "analyzeNodes [] exampleAlone = Inr [exampleA_metrics\<lparr>numberOfChildren := 0\<rparr>]"
  by code_simp

lemma example_empty_traversal: "analyzeNodes [] [AstNode None []] = Inr []"
  by simp

theorem zero_denominator_gives_NaN_witness:
  "analyzeNodes [] exampleAlone = Inr [exampleA_metrics\<lparr>numberOfChildren := 0\<rparr>] \<and>
   analyze exampleAlone = Inr (ratios [exampleA_metrics\<lparr>numberOfChildren := 0\<rparr>]) \<and>
   (\<Sum>c\<leftarrow>[exampleA_metrics\<lparr>numberOfChildren := 0\<rparr>].
      length (own (methods c)) * numberOfChildren c) = 0 \<and>
   pof (ratios [exampleA_metrics\<lparr>numberOfChildren := 0\<rparr>]) = JsNaN \<and>
   analyzeNodes [] [AstNode None []] = Inr [] \<and>
   analyze [AstNode None []] =
     Inr \<lparr>classes = [], mif = JsNaN, aif = JsNaN, mhf = JsNaN, ahf = JsNaN, pof = JsNaN\<rparr>"
proof -
  let ?cs = "[exampleA_metrics\<lparr>numberOfChildren := 0\<rparr>]"
  have z: "(\<Sum>c\<leftarrow>?cs. length (own (methods c)) * numberOfChildren c) = 0"
    by simp
  from zero_denominator_gives_NaN[OF example_alone_traversal] z
  have a: "analyze exampleAlone = Inr (ratios ?cs)" and p: "pof (ratios ?cs) = JsNaN"
    by (auto simp: analyze_def example_alone_traversal)
  from zero_denominator_gives_NaN[OF example_empty_traversal]
  obtain r where r: "analyze [AstNode None []] = Inr r" "classes r = []"
    "mif r = JsNaN" "mhf r = JsNaN" "aif r = JsNaN" "ahf r = JsNaN" "pof r = JsNaN"
    by auto
  then have "r = \<lparr>classes = [], mif = JsNaN, aif = JsNaN, mhf = JsNaN, ahf = JsNaN, pof = JsNaN\<rparr>"
    by (cases r) simp
  with r(1) have e: "analyze [AstNode None []] =
     Inr \<lparr>classes = [], mif = JsNaN, aif = JsNaN, mhf = JsNaN, ahf = JsNaN, pof = JsNaN\<rparr>"
    by simp
  show ?thesis
    by (intro conjI) (rule example_alone_traversal a z p example_empty_traversal e)+
qed

end
